theory Spec2Isabelle
  imports Complex_Main "HOL-Library.Char_ord" "HOL-Library.List_Lexorder"
begin

section \<open>Data model\<close>

text \<open>
  The session manager works on JSON dictionaries. A dictionary key that the code reads
  with \<^verbatim>\<open>.get\<close> may be absent, so every such field is an option; the values have the types
  of the persisted format (a path is a string, a rect a list of integers, a show command
  an integer). Python's unbounded integers are \<open>int\<close>, counters are \<open>nat\<close>.
  A string is a list of characters, one \<open>char\<close> per code point.
\<close>

datatype error = FileNotFoundError | JSONDecodeError | KeyError | TypeError | ValueError | IndexError

record entry =
  path :: "string option"
  rect :: "int list option"
  show_cmd :: "int option"

record session =
  name :: "string option"
  saved_at :: "string option"
  windows :: "entry list option"

text \<open>A file either holds bytes that \<^verbatim>\<open>json.load\<close> rejects, or a session dictionary.
  Writing a dictionary with \<^verbatim>\<open>json.dump\<close> and reading it back gives the dictionary again.\<close>

datatype stored_file = Corrupt | Json session

type_synonym fs = "string \<Rightarrow> stored_file option"

text \<open>The dictionaries built by \<^verbatim>\<open>get_all_explorer_windows\<close>: all four keys are present.\<close>

record window =
  wpath :: string
  hwnd :: int
  wrect :: "int list"
  wshow_cmd :: int

text \<open>
  One item of \<^verbatim>\<open>shell.Windows()\<close>. \<open>sw_folder\<close> is \<open>None\<close> when reading the document,
  its folder, the path or the handle raises, or when the document has no folder: the code
  skips the item in each of these cases. \<open>sw_placement\<close> is the show command and the
  normal rect (left, top, right, bottom) of \<^verbatim>\<open>GetWindowPlacement\<close>, \<open>sw_window_rect\<close> the
  result of \<^verbatim>\<open>GetWindowRect\<close>; \<open>None\<close> when the call raises.
\<close>

record shell_window =
  sw_folder :: "string option"
  sw_hwnd :: int
  sw_placement :: "(int \<times> int \<times> int \<times> int \<times> int) option"
  sw_window_rect :: "(int \<times> int \<times> int \<times> int) option"

definition SW_SHOWNORMAL :: int where "SW_SHOWNORMAL = 1"
definition SW_SHOWMINIMIZED :: int where "SW_SHOWMINIMIZED = 2"
definition SW_SHOWMAXIMIZED :: int where "SW_SHOWMAXIMIZED = 3"
definition SW_MAXIMIZE :: int where "SW_MAXIMIZE = 3"
definition SW_MINIMIZE :: int where "SW_MINIMIZE = 6"
definition SW_RESTORE :: int where "SW_RESTORE = 9"

section \<open>Window enumerator\<close>

definition window_of :: "shell_window \<Rightarrow> window option" where
  "window_of w =
     (case sw_folder w of
        None \<Rightarrow> None
      | Some p \<Rightarrow>
          (case sw_placement w of
             Some (sc, lft, tp, rgt, btm) \<Rightarrow>
               Some \<lparr>wpath = p, hwnd = sw_hwnd w,
                     wrect = [lft, tp, rgt - lft, btm - tp], wshow_cmd = sc\<rparr>
           | None \<Rightarrow>
               (case sw_window_rect w of
                  Some (lft, tp, rgt, btm) \<Rightarrow>
                    Some \<lparr>wpath = p, hwnd = sw_hwnd w,
                          wrect = [lft, tp, rgt - lft, btm - tp],
                          wshow_cmd = SW_SHOWNORMAL\<rparr>
                | None \<Rightarrow> None)))"

fun get_all_explorer_windows :: "shell_window list \<Rightarrow> window list" where
  "get_all_explorer_windows [] = []"
| "get_all_explorer_windows (w # ws) =
     (case window_of w of
        None \<Rightarrow> get_all_explorer_windows ws
      | Some d \<Rightarrow> d # get_all_explorer_windows ws)"

text \<open>\<^verbatim>\<open>_find_window_by_path\<close>, on the items of one enumeration.\<close>

fun find_window_by_path :: "shell_window list \<Rightarrow> string \<Rightarrow> int set \<Rightarrow> int option" where
  "find_window_by_path [] p used = None"
| "find_window_by_path (w # ws) p used =
     (case sw_folder w of
        None \<Rightarrow> find_window_by_path ws p used
      | Some window_path \<Rightarrow>
          if window_path = p \<and> sw_hwnd w \<notin> used then Some (sw_hwnd w)
          else find_window_by_path ws p used)"

section \<open>Snapshot store\<close>

text \<open>\<^verbatim>\<open>os.path.join\<close> of a directory and a plain file name.\<close>

definition os_path_join :: "string \<Rightarrow> string \<Rightarrow> string" where
  "os_path_join d f =
     (if d = [] \<or> last d \<in> {CHR 0x5C, CHR ''/'', CHR '':''} then d @ f
      else d @ [CHR 0x5C] @ f)"

definition entry_of :: "window \<Rightarrow> entry" where
  "entry_of w = \<lparr>path = Some (wpath w), rect = Some (wrect w), show_cmd = Some (wshow_cmd w)\<rparr>"

text \<open>The deduplication loop of \<^verbatim>\<open>save_session\<close>, with its two accumulators.\<close>

fun dedup_by_path :: "window list \<Rightarrow> string set \<Rightarrow> entry list \<Rightarrow> entry list" where
  "dedup_by_path [] seen session_entries = session_entries"
| "dedup_by_path (w # ws) seen session_entries =
     (if wpath w \<in> seen then dedup_by_path ws seen session_entries
      else dedup_by_path ws (insert (wpath w) seen) (session_entries @ [entry_of w]))"

text \<open>The three renderings of \<^verbatim>\<open>datetime.now()\<close> that \<^verbatim>\<open>save_session\<close> uses.\<close>

record timestamp =
  display :: string
  isoformat :: string
  compact :: string

text \<open>Python's truth value of an optional string: \<open>None\<close> and the empty string are false.\<close>

fun truthy :: "string option \<Rightarrow> string option" where
  "truthy None = None"
| "truthy (Some n) = (if n = [] then None else Some n)"

definition py_isspace :: "char \<Rightarrow> bool" where
  "py_isspace c = ((of_char c :: nat) \<in> {9, 10, 11, 12, 13, 28, 29, 30, 31, 32, 133, 160})"

definition strip :: "string \<Rightarrow> string" where
  "strip s = rev (dropWhile py_isspace (rev (dropWhile py_isspace s)))"

text \<open>\<^verbatim>\<open>str.isalnum\<close> is a table of the Unicode database: it is a parameter.\<close>

definition allowed :: "(char \<Rightarrow> bool) \<Rightarrow> char \<Rightarrow> bool" where
  "allowed isalnum c = (isalnum c \<or> c \<in> {CHR '' '', CHR ''-'', CHR ''_''})"

definition safe_name :: "(char \<Rightarrow> bool) \<Rightarrow> string \<Rightarrow> string" where
  "safe_name isalnum n = strip (filter (allowed isalnum) n)"

definition ascii_isalnum :: "char \<Rightarrow> bool" where
  "ascii_isalnum c =
     (let k = (of_char c :: nat)
      in (48 \<le> k \<and> k \<le> 57) \<or> (65 \<le> k \<and> k \<le> 90) \<or> (97 \<le> k \<and> k \<le> 122))"

definition session_filename :: "(char \<Rightarrow> bool) \<Rightarrow> timestamp \<Rightarrow> string option \<Rightarrow> string" where
  "session_filename isalnum ts nm =
     (case truthy nm of
        Some n \<Rightarrow> safe_name isalnum n @ ''.json''
      | None \<Rightarrow> ''session_'' @ compact ts @ ''.json'')"

definition session_payload :: "timestamp \<Rightarrow> shell_window list \<Rightarrow> string option \<Rightarrow> session" where
  "session_payload ts shell nm =
     \<lparr>name = Some (case truthy nm of Some n \<Rightarrow> n | None \<Rightarrow> ''Session '' @ display ts),
      saved_at = Some (isoformat ts),
      windows = Some (dedup_by_path (get_all_explorer_windows shell) {} [])\<rparr>"

text \<open>\<^verbatim>\<open>save_session\<close> returns the file path; the model also returns the file system.\<close>

definition save_session ::
  "(char \<Rightarrow> bool) \<Rightarrow> timestamp \<Rightarrow> shell_window list \<Rightarrow> string \<Rightarrow> fs \<Rightarrow> string option
     \<Rightarrow> string \<times> fs" where
  "save_session isalnum ts shell sessions_dir files nm =
     (let payload = session_payload ts shell nm;
          filename = session_filename isalnum ts nm;
          fp = os_path_join sessions_dir filename
      in (fp, files(fp \<mapsto> Json payload)))"

definition load_session :: "fs \<Rightarrow> string \<Rightarrow> error + session" where
  "load_session files fp =
     (case files fp of
        None \<Rightarrow> Inl FileNotFoundError
      | Some Corrupt \<Rightarrow> Inl JSONDecodeError
      | Some (Json d) \<Rightarrow> Inr d)"

definition delete_session :: "fs \<Rightarrow> string \<Rightarrow> fs" where
  "delete_session files fp = (if files fp \<noteq> None then files(fp := None) else files)"

text \<open>\<^verbatim>\<open>data.get("windows", [])\<close>\<close>

definition get_windows :: "session \<Rightarrow> entry list" where
  "get_windows d = (case windows d of None \<Rightarrow> [] | Some ws \<Rightarrow> ws)"

record summary =
  s_filepath :: string
  s_name :: string
  s_saved_at :: string
  window_count :: nat
  tab_count :: nat

definition endswith :: "string \<Rightarrow> string \<Rightarrow> bool" where
  "endswith s suf = (take (length suf) (rev s) = rev suf)"

text \<open>\<^verbatim>\<open>w["path"] for w in windows\<close>: a missing key raises.\<close>

fun entry_paths :: "entry list \<Rightarrow> error + string list" where
  "entry_paths [] = Inr []"
| "entry_paths (w # ws) =
     (case path w of
        None \<Rightarrow> Inl KeyError
      | Some p \<Rightarrow> (case entry_paths ws of Inl e \<Rightarrow> Inl e | Inr ps \<Rightarrow> Inr (p # ps)))"

text \<open>The body of the \<^verbatim>\<open>try\<close> block of \<^verbatim>\<open>list_sessions\<close>.\<close>

definition summarize :: "fs \<Rightarrow> string \<Rightarrow> string \<Rightarrow> error + summary" where
  "summarize files sessions_dir filename =
     (let fp = os_path_join sessions_dir filename
      in case load_session files fp of
           Inl e \<Rightarrow> Inl e
         | Inr d \<Rightarrow>
             (case entry_paths (get_windows d) of
                Inl e \<Rightarrow> Inl e
              | Inr ps \<Rightarrow>
                  Inr \<lparr>s_filepath = fp,
                       s_name = (case name d of None \<Rightarrow> filename | Some n \<Rightarrow> n),
                       s_saved_at = (case saved_at d of None \<Rightarrow> [] | Some t \<Rightarrow> t),
                       window_count = card (set ps),
                       tab_count = length (get_windows d)\<rparr>))"

fun collect_sessions :: "fs \<Rightarrow> string \<Rightarrow> string list \<Rightarrow> summary list" where
  "collect_sessions files sessions_dir [] = []"
| "collect_sessions files sessions_dir (filename # rest) =
     (if \<not> endswith filename ''.json'' then collect_sessions files sessions_dir rest
      else case summarize files sessions_dir filename of
             Inl e \<Rightarrow> collect_sessions files sessions_dir rest
           | Inr s \<Rightarrow> s # collect_sessions files sessions_dir rest)"

text \<open>
  \<open>listdir\<close> is the result of \<^verbatim>\<open>os.listdir\<close>, or \<open>None\<close> when the directory does not exist.
  Python's stable sort with \<^verbatim>\<open>reverse=True\<close> keeps the order of equal keys.
\<close>

definition list_sessions :: "fs \<Rightarrow> string \<Rightarrow> string list option \<Rightarrow> summary list" where
  "list_sessions files sessions_dir listdir =
     (case listdir of
        None \<Rightarrow> []
      | Some filenames \<Rightarrow>
          rev (sort_key s_saved_at (rev (collect_sessions files sessions_dir filenames))))"

definition remove_path_from_session :: "fs \<Rightarrow> string \<Rightarrow> string \<Rightarrow> error + bool \<times> fs" where
  "remove_path_from_session files fp path_to_remove =
     (case load_session files fp of
        Inl e \<Rightarrow> Inl e
      | Inr session_data \<Rightarrow>
          (let updated_windows =
                 filter (\<lambda>w. path w \<noteq> Some path_to_remove) (get_windows session_data)
           in if updated_windows = [] then Inr (False, delete_session files fp)
              else Inr (True,
                        files(fp \<mapsto> Json (session_data\<lparr>windows := Some updated_windows\<rparr>)))))"

definition add_path_to_session ::
  "fs \<Rightarrow> string \<Rightarrow> string \<Rightarrow> int list option \<Rightarrow> int option \<Rightarrow> error + bool \<times> fs" where
  "add_path_to_session files fp new_path r sc =
     (case load_session files fp of
        Inl e \<Rightarrow> Inl e
      | Inr session_data \<Rightarrow>
          (let ws = get_windows session_data
           in if list_ex (\<lambda>w. path w = Some new_path) ws then Inr (False, files)
              else
                (let r' = (case r of None \<Rightarrow> [100, 100, 1000, 600] | Some x \<Rightarrow> x);
                     sc' = (case sc of None \<Rightarrow> 1 | Some x \<Rightarrow> x);
                     new_window = \<lparr>path = Some new_path, rect = Some r', show_cmd = Some sc'\<rparr>
                 in Inr (True,
                         files(fp \<mapsto> Json (session_data\<lparr>windows := Some (ws @ [new_window])\<rparr>))))))"

section \<open>Restore engine\<close>

text \<open>
  \<^verbatim>\<open>restore_session\<close> talks to the operating system. The model makes each answer of the
  outside world a parameter, so that a theorem about every environment is a theorem about
  every run:
  \<^item> \<open>shell_windows e n\<close> are the items of the \<open>n\<close>-th enumeration \<^verbatim>\<open>shell.Windows()\<close> of
    the call (each \<^verbatim>\<open>_find_window_by_path\<close> enumerates afresh);
  \<^item> \<open>popen_ok e i\<close> tells whether \<^verbatim>\<open>subprocess.Popen\<close> succeeds for the \<open>i\<close>-th entry of
    \<^verbatim>\<open>to_open\<close>;
  \<^item> \<open>time_time e n\<close> is the \<open>n\<close>-th reading of \<^verbatim>\<open>time.time()\<close>, a number of seconds; the
    sum \<^verbatim>\<open>time.time() + open_timeout\<close> is taken exactly;
  \<^item> \<open>geometry_ok e i\<close> tells whether \<^verbatim>\<open>MoveWindow\<close> and \<^verbatim>\<open>ShowWindow\<close> both succeed for
    the \<open>i\<close>-th entry of \<^verbatim>\<open>to_restore\<close>.

  The local variables of the function are the fields of \<open>rstate\<close>. The state also counts
  the enumerations and clock readings made so far, records the calls to the outside world
  in \<open>trace\<close>, and holds in \<open>raised\<close> an exception that leaves the function.
\<close>

type_synonym target = "string \<times> int list option \<times> int"
type_synonym matched = "int \<times> int list option \<times> int"

datatype event =
    FindWindow string "int option"
  | Popen string bool
  | TimeTime real
  | Sleep real
  | ApplyGeometry int "int list" int bool

record os_env =
  shell_windows :: "nat \<Rightarrow> shell_window list"
  popen_ok :: "nat \<Rightarrow> bool"
  time_time :: "nat \<Rightarrow> real"
  geometry_ok :: "nat \<Rightarrow> bool"

record rstate =
  used_hwnds :: "int set"
  restored :: nat
  skipped :: nat
  to_open :: "target list"
  to_restore :: "matched list"
  remaining :: "target list"
  enumerations :: nat
  clock_reads :: nat
  trace :: "event list"
  raised :: "error option"

text \<open>The state at the start of \<^verbatim>\<open>restore_session\<close>, after the snapshot is loaded.\<close>

definition initial :: rstate where
  "initial = \<lparr>used_hwnds = {}, restored = 0, skipped = 0, to_open = [], to_restore = [],
     remaining = [], enumerations = 0, clock_reads = 0, trace = [], raised = None\<rparr>"

text \<open>One call \<^verbatim>\<open>self._find_window_by_path(path, used_hwnds)\<close>.\<close>

definition find_step :: "os_env \<Rightarrow> string \<Rightarrow> rstate \<Rightarrow> int option \<times> rstate" where
  "find_step e p s =
     (let r = find_window_by_path (shell_windows e (enumerations s)) p (used_hwnds s)
      in (r, s\<lparr>enumerations := enumerations s + 1, trace := trace s @ [FindWindow p r]\<rparr>))"

text \<open>The first loop: entries without a path are skipped, the others are looked up among
  the live windows and go to \<^verbatim>\<open>to_restore\<close> or to \<^verbatim>\<open>to_open\<close>.\<close>

fun partition_windows :: "os_env \<Rightarrow> entry list \<Rightarrow> rstate \<Rightarrow> rstate" where
  "partition_windows e [] s = s"
| "partition_windows e (w # ws) s =
     (let r = rect w;
          sc = (case show_cmd w of None \<Rightarrow> SW_SHOWNORMAL | Some c \<Rightarrow> c)
      in case truthy (path w) of
           None \<Rightarrow> partition_windows e ws (s\<lparr>skipped := skipped s + 1\<rparr>)
         | Some p \<Rightarrow>
             (case find_step e p s of
                (Some h, s') \<Rightarrow>
                  partition_windows e ws
                    (s'\<lparr>to_restore := to_restore s' @ [(h, r, sc)],
                        used_hwnds := insert h (used_hwnds s')\<rparr>)
              | (None, s') \<Rightarrow>
                  partition_windows e ws (s'\<lparr>to_open := to_open s' @ [(p, r, sc)]\<rparr>)))"

text \<open>The launch loop. A failed launch adds one to \<^verbatim>\<open>skipped\<close>; \<^verbatim>\<open>to_open\<close> is not changed.\<close>

fun launch_all :: "os_env \<Rightarrow> nat \<Rightarrow> target list \<Rightarrow> rstate \<Rightarrow> rstate" where
  "launch_all e i [] s = s"
| "launch_all e i ((p, r, sc) # rest) s =
     (if popen_ok e i
      then launch_all e (i + 1) rest (s\<lparr>trace := trace s @ [Popen p True]\<rparr>)
      else launch_all e (i + 1) rest
             (s\<lparr>skipped := skipped s + 1, trace := trace s @ [Popen p False]\<rparr>))"

text \<open>
  One polling round, \<^verbatim>\<open>for i in range(len(remaining) - 1, -1, -1)\<close>: the first argument is
  the number of indices still to visit, the next index is one less. Reading
  \<^verbatim>\<open>remaining[i]\<close> beyond the end of the list would raise.
\<close>

fun poll_round :: "os_env \<Rightarrow> nat \<Rightarrow> rstate \<Rightarrow> rstate" where
  "poll_round e 0 s = s"
| "poll_round e (Suc i) s =
     (if length (remaining s) \<le> i then s\<lparr>raised := Some IndexError\<rparr>
      else
        (case remaining s ! i of
           (p, r, sc) \<Rightarrow>
             (case find_step e p s of
                (Some h, s') \<Rightarrow>
                  poll_round e i
                    (s'\<lparr>to_restore := to_restore s' @ [(h, r, sc)],
                        used_hwnds := insert h (used_hwnds s'),
                        remaining := take i (remaining s') @ drop (Suc i) (remaining s')\<rparr>)
              | (None, s') \<Rightarrow> poll_round e i s')))"

text \<open>
  The \<^verbatim>\<open>while remaining and time.time() < deadline\<close> loop. It may run forever when the
  clock never reaches the deadline: the result \<open>None\<close> stands for a loop that does not end.
  \<^verbatim>\<open>time.sleep\<close> raises \<^verbatim>\<open>ValueError\<close> for a negative interval.
\<close>

partial_function (option) poll_loop :: "os_env \<Rightarrow> real \<Rightarrow> real \<Rightarrow> rstate \<Rightarrow> rstate option" where
  "poll_loop e deadline poll_interval s =
     (if remaining s = [] then Some s
      else
        (let now = time_time e (clock_reads s);
             s1 = s\<lparr>clock_reads := clock_reads s + 1, trace := trace s @ [TimeTime now]\<rparr>
         in if \<not> now < deadline then Some s1
            else
              (let s2 = poll_round e (length (remaining s1)) s1
               in if raised s2 \<noteq> None then Some s2
                  else if remaining s2 = [] then poll_loop e deadline poll_interval s2
                  else if poll_interval < 0 then Some (s2\<lparr>raised := Some ValueError\<rparr>)
                  else poll_loop e deadline poll_interval
                         (s2\<lparr>trace := trace s2 @ [Sleep poll_interval]\<rparr>))))"

text \<open>The block \<^verbatim>\<open>if to_open:\<close> with the deadline, the loop and the count of the entries
  that are still unmatched after it.\<close>

definition wait_for_windows :: "os_env \<Rightarrow> real \<Rightarrow> real \<Rightarrow> rstate \<Rightarrow> rstate option" where
  "wait_for_windows e open_timeout poll_interval s =
     (if to_open s = [] then Some s
      else
        (let now = time_time e (clock_reads s);
             deadline = now + open_timeout;
             s1 = s\<lparr>clock_reads := clock_reads s + 1, trace := trace s @ [TimeTime now],
                    remaining := to_open s\<rparr>
         in case poll_loop e deadline poll_interval s1 of
              None \<Rightarrow> None
            | Some s2 \<Rightarrow>
                if raised s2 \<noteq> None then Some s2
                else Some (s2\<lparr>skipped := skipped s2 + length (remaining s2)\<rparr>)))"

text \<open>\<^verbatim>\<open>_apply_geometry\<close>: the command passed to \<^verbatim>\<open>ShowWindow\<close>, the unpacking of the
  rect (outside the \<^verbatim>\<open>try\<close> block, so a malformed rect raises), and the call.\<close>

definition show_window_cmd :: "int \<Rightarrow> int" where
  "show_window_cmd sc =
     (if sc = SW_SHOWMAXIMIZED then SW_MAXIMIZE
      else if sc = SW_SHOWMINIMIZED \<or> sc = SW_MINIMIZE then SW_MINIMIZE
      else SW_RESTORE)"

fun unpack_rect :: "int list option \<Rightarrow> error + int list" where
  "unpack_rect None = Inl TypeError"
| "unpack_rect (Some [lft, tp, width, height]) = Inr [lft, tp, width, height]"
| "unpack_rect (Some xs) = Inl ValueError"

definition apply_geometry :: "bool \<Rightarrow> int \<Rightarrow> int list option \<Rightarrow> int \<Rightarrow> error + bool \<times> event" where
  "apply_geometry ok h r sc =
     (case unpack_rect r of
        Inl err \<Rightarrow> Inl err
      | Inr xs \<Rightarrow> Inr (ok, ApplyGeometry h xs (show_window_cmd sc) ok))"

fun apply_all :: "os_env \<Rightarrow> nat \<Rightarrow> matched list \<Rightarrow> rstate \<Rightarrow> rstate" where
  "apply_all e i [] s = s"
| "apply_all e i ((h, r, sc) # rest) s =
     (case apply_geometry (geometry_ok e i) h r sc of
        Inl err \<Rightarrow> s\<lparr>raised := Some err\<rparr>
      | Inr (success, ev) \<Rightarrow>
          apply_all e (i + 1) rest
            ((if success then s\<lparr>restored := restored s + 1\<rparr>
              else s\<lparr>skipped := skipped s + 1\<rparr>)\<lparr>trace := trace s @ [ev]\<rparr>))"

text \<open>The pass up to the geometry loop, the whole pass, and \<^verbatim>\<open>restore_session\<close> itself
  with the returned pair.\<close>

definition match_windows :: "os_env \<Rightarrow> entry list \<Rightarrow> real \<Rightarrow> real \<Rightarrow> rstate option" where
  "match_windows e ws open_timeout poll_interval =
     (let s1 = partition_windows e ws initial;
          s2 = launch_all e 0 (to_open s1) s1
      in wait_for_windows e open_timeout poll_interval s2)"

definition restore_windows :: "os_env \<Rightarrow> entry list \<Rightarrow> real \<Rightarrow> real \<Rightarrow> rstate option" where
  "restore_windows e ws open_timeout poll_interval =
     (case match_windows e ws open_timeout poll_interval of
        None \<Rightarrow> None
      | Some s \<Rightarrow>
          if raised s \<noteq> None then Some s else Some (apply_all e 0 (to_restore s) s))"

definition restore_session ::
  "os_env \<Rightarrow> fs \<Rightarrow> string \<Rightarrow> real \<Rightarrow> real \<Rightarrow> (error + nat \<times> nat) option" where
  "restore_session e files fp open_timeout poll_interval =
     (case load_session files fp of
        Inl err \<Rightarrow> Some (Inl err)
      | Inr d \<Rightarrow>
          (case restore_windows e (get_windows d) open_timeout poll_interval of
             None \<Rightarrow> None
           | Some s \<Rightarrow>
               (case raised s of
                  Some err \<Rightarrow> Some (Inl err)
                | None \<Rightarrow> Some (Inr (restored s, skipped s)))))"

declare poll_loop.simps [code]

section \<open>Specification-side definitions and sample data\<close>

text \<open>
  What the specification asks of capture, written on the enumerated windows: the windows
  whose path no earlier window of the enumeration has, in the order of the enumeration.
\<close>

definition first_occurrences :: "window list \<Rightarrow> window list" where
  "first_occurrences ws =
     map (\<lambda>i. ws ! i)
       (filter (\<lambda>i. wpath (ws ! i) \<notin> wpath ` set (take i ws)) [0..<length ws])"

text \<open>The number of entries of a snapshot whose path is non-empty.\<close>

definition nonempty_paths :: "entry list \<Rightarrow> nat" where
  "nonempty_paths ws = length (filter (\<lambda>w. truthy (path w) \<noteq> None) ws)"

text \<open>Kinds of events, and the handles that a trace finds and moves.\<close>

fun is_find :: "event \<Rightarrow> bool" where
  "is_find (FindWindow p r) = True"
| "is_find ev = False"

fun is_wait :: "event \<Rightarrow> bool" where
  "is_wait (FindWindow p r) = True"
| "is_wait (TimeTime t) = True"
| "is_wait (Sleep t) = True"
| "is_wait ev = False"

fun is_geometry :: "event \<Rightarrow> bool" where
  "is_geometry (ApplyGeometry h r c ok) = True"
| "is_geometry ev = False"

fun found_handles :: "event list \<Rightarrow> int list" where
  "found_handles [] = []"
| "found_handles (FindWindow p (Some h) # evs) = h # found_handles evs"
| "found_handles (ev # evs) = found_handles evs"

fun geometry_handles :: "event list \<Rightarrow> int list" where
  "geometry_handles [] = []"
| "geometry_handles (ApplyGeometry h r c ok # evs) = h # geometry_handles evs"
| "geometry_handles (ev # evs) = geometry_handles evs"

text \<open>The launch requests for a list of needs-launch entries, and how many of them fail.\<close>

fun launch_events :: "os_env \<Rightarrow> nat \<Rightarrow> target list \<Rightarrow> event list" where
  "launch_events e i [] = []"
| "launch_events e i ((p, r, sc) # rest) = Popen p (popen_ok e i) # launch_events e (i + 1) rest"

fun launch_failures :: "os_env \<Rightarrow> nat \<Rightarrow> target list \<Rightarrow> nat" where
  "launch_failures e i [] = 0"
| "launch_failures e i (t # rest) =
     (if popen_ok e i then 0 else 1) + launch_failures e (i + 1) rest"

text \<open>
  Relations between a state and a later state of the same pass. \<open>matching A s s'\<close>: the
  matched list has grown by entries with fresh, pairwise distinct handles, each found by a
  search recorded in the new events, which all satisfy \<open>A\<close>. \<open>steady s s'\<close>: entries only
  moved from \<^verbatim>\<open>remaining\<close> to \<^verbatim>\<open>to_restore\<close>. \<open>idle s s'\<close>: nothing was matched.
\<close>

definition matching :: "(event \<Rightarrow> bool) \<Rightarrow> rstate \<Rightarrow> rstate \<Rightarrow> bool" where
  "matching A s s' =
     (\<exists>new evs. to_restore s' = to_restore s @ new \<and> trace s' = trace s @ evs
        \<and> used_hwnds s' = used_hwnds s \<union> set (map fst new)
        \<and> distinct (map fst new) \<and> set (map fst new) \<inter> used_hwnds s = {}
        \<and> list_all A evs \<and> found_handles evs = map fst new)"

definition steady :: "rstate \<Rightarrow> rstate \<Rightarrow> bool" where
  "steady s s' =
     (length (to_restore s') + length (remaining s') = length (to_restore s) + length (remaining s)
      \<and> skipped s' = skipped s \<and> restored s' = restored s \<and> to_open s' = to_open s)"

definition idle :: "rstate \<Rightarrow> rstate \<Rightarrow> bool" where
  "idle s s' =
     (to_restore s' = to_restore s \<and> remaining s' = remaining s \<and> skipped s' = skipped s
      \<and> restored s' = restored s)"

definition sample_A :: entry where
  "sample_A = \<lparr>path = Some ''C:/A'', rect = Some [0, 0, 800, 600], show_cmd = Some 1\<rparr>"

definition sample_B :: entry where
  "sample_B = \<lparr>path = Some ''C:/B'', rect = Some [100, 100, 1024, 768], show_cmd = Some 3\<rparr>"

definition sample_empty :: entry where
  "sample_empty = \<lparr>path = Some [], rect = Some [0, 0, 800, 600], show_cmd = Some 1\<rparr>"

definition sample_work :: session where
  "sample_work = \<lparr>name = Some ''work'', saved_at = Some ''2025-10-03T15:52:01'',
     windows = Some [sample_A, sample_B]\<rparr>"

definition sample_home :: session where
  "sample_home = \<lparr>name = Some ''home'', saved_at = Some ''2025-10-04T09:00:00'',
     windows = Some [sample_A]\<rparr>"

definition sample_twice :: session where
  "sample_twice = \<lparr>name = None, saved_at = None,
     windows = Some [sample_A, sample_B, sample_A]\<rparr>"

definition sample_mixed :: session where
  "sample_mixed = \<lparr>name = Some ''mixed'', saved_at = Some ''2025-10-05T10:00:00'',
     windows = Some [sample_A, sample_empty, sample_B]\<rparr>"

definition sample_blank :: session where
  "sample_blank = \<lparr>name = Some ''blank'', saved_at = Some ''2025-10-06T10:00:00'',
     windows = Some [sample_empty]\<rparr>"

definition sample_only_B :: session where
  "sample_only_B = \<lparr>name = Some ''only B'', saved_at = Some ''2025-10-07T10:00:00'',
     windows = Some [sample_B]\<rparr>"

definition sample_files :: fs where
  "sample_files = [''S/work.json'' \<mapsto> Json sample_work, ''S/home.json'' \<mapsto> Json sample_home,
     ''S/twice.json'' \<mapsto> Json sample_twice, ''S/bad.json'' \<mapsto> Corrupt,
     ''S/mixed.json'' \<mapsto> Json sample_mixed, ''S/blank.json'' \<mapsto> Json sample_blank,
     ''S/only B.json'' \<mapsto> Json sample_only_B]"

definition sample_time :: timestamp where
  "sample_time = \<lparr>display = ''Oct 03, 2025 at 03:52:01 PM'',
     isoformat = ''2025-10-03T15:52:01'', compact = ''20251003_155201''\<rparr>"

definition sample_shell :: "shell_window list" where
  "sample_shell =
     [\<lparr>sw_folder = Some ''C:/A'', sw_hwnd = 11,
       sw_placement = Some (1, 0, 0, 800, 600), sw_window_rect = Some (0, 0, 800, 600)\<rparr>,
      \<lparr>sw_folder = None, sw_hwnd = 12, sw_placement = None, sw_window_rect = None\<rparr>,
      \<lparr>sw_folder = Some ''C:/B'', sw_hwnd = 13,
       sw_placement = None, sw_window_rect = Some (100, 100, 1124, 868)\<rparr>,
      \<lparr>sw_folder = Some ''C:/A'', sw_hwnd = 14,
       sw_placement = Some (3, 5, 5, 105, 105), sw_window_rect = None\<rparr>]"

text \<open>
  Environments. In \<open>sample_env\<close> a window on \<^verbatim>\<open>C:/A\<close> is open from the start and one on
  \<^verbatim>\<open>C:/B\<close> appears at the third enumeration; every launch and geometry call succeeds; the
  clock advances by one second per reading. In \<open>twin_env\<close> two windows show \<^verbatim>\<open>C:/A\<close>.
  In \<open>failing_env\<close> no window is ever open and every launch fails. In \<open>quiet_env\<close> the
  only window shows another folder.
\<close>

definition sample_live_A :: shell_window where
  "sample_live_A = \<lparr>sw_folder = Some ''C:/A'', sw_hwnd = 11,
     sw_placement = Some (1, 0, 0, 800, 600), sw_window_rect = Some (0, 0, 800, 600)\<rparr>"

definition sample_live_A2 :: shell_window where
  "sample_live_A2 = \<lparr>sw_folder = Some ''C:/A'', sw_hwnd = 14,
     sw_placement = Some (3, 5, 5, 105, 105), sw_window_rect = None\<rparr>"

definition sample_live_B :: shell_window where
  "sample_live_B = \<lparr>sw_folder = Some ''C:/B'', sw_hwnd = 13,
     sw_placement = None, sw_window_rect = Some (100, 100, 1124, 868)\<rparr>"

definition sample_env :: os_env where
  "sample_env =
     \<lparr>shell_windows = (\<lambda>n. if n < 2 then [sample_live_A] else [sample_live_A, sample_live_B]),
      popen_ok = (\<lambda>i. True), time_time = (\<lambda>n. real n), geometry_ok = (\<lambda>i. True)\<rparr>"

definition twin_env :: os_env where
  "twin_env =
     \<lparr>shell_windows = (\<lambda>n. [sample_live_A, sample_live_A2]),
      popen_ok = (\<lambda>i. True), time_time = (\<lambda>n. real n), geometry_ok = (\<lambda>i. True)\<rparr>"

definition failing_env :: os_env where
  "failing_env = \<lparr>shell_windows = (\<lambda>n. []), popen_ok = (\<lambda>i. False),
     time_time = (\<lambda>n. real n), geometry_ok = (\<lambda>i. True)\<rparr>"

definition quiet_env :: os_env where
  "quiet_env =
     \<lparr>shell_windows = (\<lambda>n. [\<lparr>sw_folder = Some ''C:/Other'', sw_hwnd = 21,
        sw_placement = None, sw_window_rect = None\<rparr>]),
      popen_ok = (\<lambda>i. True), time_time = (\<lambda>n. real n), geometry_ok = (\<lambda>i. True)\<rparr>"

text \<open>The final states of three runs, as the model computes them.\<close>

definition sample_final :: rstate where
  "sample_final = \<lparr>used_hwnds = {13, 11}, restored = 2, skipped = 1,
     to_open = [(''C:/B'', Some [100, 100, 1024, 768], 3)],
     to_restore = [(11, Some [0, 0, 800, 600], 1), (13, Some [100, 100, 1024, 768], 3)],
     remaining = [], enumerations = 3, clock_reads = 2,
     trace = [FindWindow ''C:/A'' (Some 11), FindWindow ''C:/B'' None, Popen ''C:/B'' True,
        TimeTime 0, TimeTime 1, FindWindow ''C:/B'' (Some 13),
        ApplyGeometry 11 [0, 0, 800, 600] 9 True, ApplyGeometry 13 [100, 100, 1024, 768] 3 True],
     raised = None\<rparr>"

definition twin_final :: rstate where
  "twin_final = \<lparr>used_hwnds = {14, 11}, restored = 2, skipped = 0,
     to_open = [],
     to_restore = [(11, Some [0, 0, 800, 600], 1), (14, Some [0, 0, 800, 600], 1)],
     remaining = [], enumerations = 2, clock_reads = 0,
     trace = [FindWindow ''C:/A'' (Some 11), FindWindow ''C:/A'' (Some 14),
        ApplyGeometry 11 [0, 0, 800, 600] 9 True, ApplyGeometry 14 [0, 0, 800, 600] 9 True],
     raised = None\<rparr>"

definition failing_final :: rstate where
  "failing_final = \<lparr>used_hwnds = {}, restored = 0, skipped = 2,
     to_open = [(''C:/B'', Some [100, 100, 1024, 768], 3)], to_restore = [],
     remaining = [(''C:/B'', Some [100, 100, 1024, 768], 3)], enumerations = 2, clock_reads = 3,
     trace = [FindWindow ''C:/B'' None, Popen ''C:/B'' False, TimeTime 0, TimeTime 1,
        FindWindow ''C:/B'' None, Sleep (1 / 10), TimeTime 2],
     raised = None\<rparr>"

section \<open>Properties of the snapshot store\<close>

subsection \<open>Removing a path\<close>

text \<open>
  Claim C5. For a stored snapshot, \<^verbatim>\<open>remove_path_from_session\<close> keeps exactly the entries
  whose path differs from the given one. If none is left, the file is deleted, the result is
  \<open>False\<close> and loading the key afterwards fails with \<open>FileNotFoundError\<close>; otherwise the
  snapshot with the reduced entry list is written and the result is \<open>True\<close>.
\<close>

theorem remove_path_from_session_spec:
  assumes "files fp = Some (Json d)"
  shows "let kept = filter (\<lambda>w. path w \<noteq> Some p) (get_windows d) in
     (kept = [] \<longrightarrow>
        remove_path_from_session files fp p = Inr (False, files(fp := None))
        \<and> load_session (files(fp := None)) fp = Inl FileNotFoundError)
     \<and> (kept \<noteq> [] \<longrightarrow>
        remove_path_from_session files fp p =
          Inr (True, files(fp \<mapsto> Json (d\<lparr>windows := Some kept\<rparr>))))"
  using assms
  by (simp add: remove_path_from_session_def load_session_def delete_session_def Let_def)

theorem remove_path_from_session_spec_witness:
  "sample_files ''S/work.json'' = Some (Json sample_work)
   \<and> sample_files ''S/home.json'' = Some (Json sample_home)
   \<and> remove_path_from_session sample_files ''S/work.json'' ''C:/A'' =
       Inr (True, sample_files(''S/work.json'' \<mapsto> Json (sample_work\<lparr>windows := Some [sample_B]\<rparr>)))
   \<and> remove_path_from_session sample_files ''S/home.json'' ''C:/A'' =
       Inr (False, sample_files(''S/home.json'' := None))
   \<and> load_session (sample_files(''S/home.json'' := None)) ''S/home.json'' = Inl FileNotFoundError"
proof -
  have w: "sample_files ''S/work.json'' = Some (Json sample_work)"
    and h: "sample_files ''S/home.json'' = Some (Json sample_home)"
    by (simp_all add: sample_files_def)
  have "get_windows sample_work = [sample_A, sample_B]" "get_windows sample_home = [sample_A]"
    by (simp_all add: get_windows_def sample_work_def sample_home_def)
  then show ?thesis
    using w h
      remove_path_from_session_spec [of sample_files "''S/work.json''" sample_work "''C:/A''"]
      remove_path_from_session_spec [of sample_files "''S/home.json''" sample_home "''C:/A''"]
    by (simp add: sample_A_def sample_B_def)
qed

subsection \<open>Adding a path\<close>

text \<open>
  Claim C6. For a stored snapshot, \<^verbatim>\<open>add_path_to_session\<close> with a path that an entry
  already has returns \<open>False\<close> and writes nothing: the file system is the one it was given.
  With a new path it appends one entry, with rect \<open>[100, 100, 1000, 600]\<close> and show command
  1 where they are not given, writes the snapshot and returns \<open>True\<close>.
\<close>

theorem add_path_to_session_spec:
  assumes "files fp = Some (Json d)"
  shows "(Some p \<in> path ` set (get_windows d) \<longrightarrow>
            add_path_to_session files fp p r sc = Inr (False, files))
       \<and> (Some p \<notin> path ` set (get_windows d) \<longrightarrow>
            add_path_to_session files fp p r sc =
              Inr (True, files(fp \<mapsto> Json (d\<lparr>windows := Some (get_windows d @
                 [\<lparr>path = Some p,
                   rect = Some (case r of None \<Rightarrow> [100, 100, 1000, 600] | Some x \<Rightarrow> x),
                   show_cmd = Some (case sc of None \<Rightarrow> 1 | Some x \<Rightarrow> x)\<rparr>])\<rparr>))))"
  using assms
  by (force simp add: add_path_to_session_def load_session_def Let_def list_ex_iff image_iff)

theorem add_path_to_session_spec_witness:
  "sample_files ''S/home.json'' = Some (Json sample_home)
   \<and> add_path_to_session sample_files ''S/home.json'' ''C:/A'' None None = Inr (False, sample_files)
   \<and> add_path_to_session sample_files ''S/home.json'' ''C:/Z'' None None =
       Inr (True, sample_files(''S/home.json'' \<mapsto> Json (sample_home\<lparr>windows := Some
         [sample_A, \<lparr>path = Some ''C:/Z'', rect = Some [100, 100, 1000, 600], show_cmd = Some 1\<rparr>]\<rparr>)))"
proof -
  have h: "sample_files ''S/home.json'' = Some (Json sample_home)"
    by (simp add: sample_files_def)
  have "get_windows sample_home = [sample_A]"
    by (simp add: get_windows_def sample_home_def)
  then show ?thesis
    using h
      add_path_to_session_spec [of sample_files "''S/home.json''" sample_home "''C:/A''" None None]
      add_path_to_session_spec [of sample_files "''S/home.json''" sample_home "''C:/Z''" None None]
    by (simp add: sample_A_def)
qed

subsection \<open>Capture\<close>

lemma first_occurrences_snoc:
  "first_occurrences (ws @ [w]) =
     first_occurrences ws @ (if wpath w \<in> wpath ` set ws then [] else [w])"
proof -
  let ?new = "\<lambda>i. wpath ((ws @ [w]) ! i) \<notin> wpath ` set (take i (ws @ [w]))"
  let ?old = "\<lambda>i. wpath (ws ! i) \<notin> wpath ` set (take i ws)"
  have a: "filter ?new [0..<length ws] = filter ?old [0..<length ws]"
    by (rule filter_cong) (auto simp add: nth_append)
  have b: "map (\<lambda>i. (ws @ [w]) ! i) (filter ?old [0..<length ws])
         = map (\<lambda>i. ws ! i) (filter ?old [0..<length ws])"
    by (rule map_cong) (auto simp add: nth_append)
  have "first_occurrences (ws @ [w]) =
      map (\<lambda>i. (ws @ [w]) ! i) (filter ?new [0..<length ws])
      @ (if wpath w \<in> wpath ` set ws then [] else [w])"
    unfolding first_occurrences_def by simp
  then show ?thesis
    unfolding a b first_occurrences_def .
qed

lemma dedup_by_path_snoc:
  "dedup_by_path (ws @ [w]) seen acc =
     (if wpath w \<in> seen \<union> wpath ` set ws then dedup_by_path ws seen acc
      else dedup_by_path ws seen acc @ [entry_of w])"
  by (induction ws arbitrary: seen acc) auto

lemma dedup_by_path_first_occurrences:
  "dedup_by_path ws {} [] = map entry_of (first_occurrences ws)"
proof (induction ws rule: rev_induct)
  case Nil
  show ?case by (simp add: first_occurrences_def)
next
  case (snoc w ws)
  then show ?case
    by (simp add: dedup_by_path_snoc first_occurrences_snoc)
qed

lemma set_first_occurrences:
  "wpath ` set (first_occurrences ws) = wpath ` set ws"
proof (induction ws rule: rev_induct)
  case Nil
  show ?case by (simp add: first_occurrences_def)
next
  case (snoc w ws)
  then show ?case
    by (auto simp add: first_occurrences_snoc)
qed

lemma distinct_first_occurrences:
  "distinct (map wpath (first_occurrences ws))"
proof (induction ws rule: rev_induct)
  case Nil
  show ?case by (simp add: first_occurrences_def)
next
  case (snoc w ws)
  then show ?case
    using set_first_occurrences [of ws]
    by (simp add: first_occurrences_snoc)
qed

text \<open>
  Claim C7. For every enumeration, \<^verbatim>\<open>save_session\<close> writes one entry for each first
  occurrence of a path among the enumerated windows, in enumeration order; the entry holds
  the path, the rect and the show command of that first window. The written entries have
  pairwise distinct paths, and their paths are exactly the enumerated paths.
\<close>

theorem save_session_dedup:
  "let ws = get_all_explorer_windows shell;
       (fp, files') = save_session isalnum ts shell dir files nm
   in (\<exists>payload es. files' fp = Some (Json payload) \<and> windows payload = Some es
         \<and> es = map (\<lambda>w. \<lparr>path = Some (wpath w), rect = Some (wrect w),
                             show_cmd = Some (wshow_cmd w)\<rparr>) (first_occurrences ws)
         \<and> map path es = map (\<lambda>w. Some (wpath w)) (first_occurrences ws)
         \<and> map rect es = map (\<lambda>w. Some (wrect w)) (first_occurrences ws)
         \<and> map show_cmd es = map (\<lambda>w. Some (wshow_cmd w)) (first_occurrences ws)
         \<and> distinct (map path es)
         \<and> set (map path es) = Some ` set (map wpath ws))
      \<and> distinct (map wpath (first_occurrences ws))
      \<and> set (map wpath (first_occurrences ws)) = set (map wpath ws)"
proof -
  let ?ws = "get_all_explorer_windows shell"
  let ?fo = "first_occurrences ?ws"
  let ?P = "session_payload ts shell nm"
  let ?fp = "os_path_join dir (session_filename isalnum ts nm)"
  define es where "es = map (\<lambda>w. \<lparr>path = Some (wpath w), rect = Some (wrect w),
                         show_cmd = Some (wshow_cmd w)\<rparr>) ?fo"
  have w: "windows ?P = Some es"
    by (simp add: session_payload_def dedup_by_path_first_occurrences entry_of_def es_def)
  have p: "map path es = map (\<lambda>w. Some (wpath w)) ?fo"
    and r: "map rect es = map (\<lambda>w. Some (wrect w)) ?fo"
    and c: "map show_cmd es = map (\<lambda>w. Some (wshow_cmd w)) ?fo"
    by (simp_all add: es_def)
  have d: "distinct (map wpath ?fo)"
    by (rule distinct_first_occurrences)
  have s: "set (map wpath ?fo) = set (map wpath ?ws)"
    using set_first_occurrences [of ?ws] by simp
  have m: "map (\<lambda>w. Some (wpath w)) ?fo = map Some (map wpath ?fo)"
    by simp
  have i: "inj_on Some (set (map wpath ?fo))"
    by (simp add: inj_on_def)
  from d i have dm: "distinct (map Some (map wpath ?fo))"
    by (rule distinct_map [THEN iffD2, OF conjI])
  have dp: "distinct (map path es)"
    unfolding p m by (rule dm)
  have "set (map Some (map wpath ?fo)) = Some ` set (map wpath ?fo)"
    by (rule set_map)
  then have sp: "set (map path es) = Some ` set (map wpath ?ws)"
    unfolding p m s .
  have f: "(files(?fp \<mapsto> Json ?P)) ?fp = Some (Json ?P)"
    by simp
  have ex: "\<exists>payload es'. (files(?fp \<mapsto> Json ?P)) ?fp = Some (Json payload)
      \<and> windows payload = Some es'
      \<and> es' = map (\<lambda>w. \<lparr>path = Some (wpath w), rect = Some (wrect w),
                             show_cmd = Some (wshow_cmd w)\<rparr>) ?fo
      \<and> map path es' = map (\<lambda>w. Some (wpath w)) ?fo
      \<and> map rect es' = map (\<lambda>w. Some (wrect w)) ?fo
      \<and> map show_cmd es' = map (\<lambda>w. Some (wshow_cmd w)) ?fo
      \<and> distinct (map path es')
      \<and> set (map path es') = Some ` set (map wpath ?ws)"
    using f w es_def p r c dp sp by blast
  show ?thesis
    unfolding save_session_def Let_def prod.case
    using ex d s by blast
qed

text \<open>
  At the sample enumeration, the second window on \<^verbatim>\<open>C:/A\<close> and the item without a folder
  leave no entry; the entry for \<^verbatim>\<open>C:/A\<close> has the geometry of the first window on it.
\<close>

theorem save_session_dedup_witness:
  "first_occurrences (get_all_explorer_windows sample_shell) =
     [\<lparr>wpath = ''C:/A'', hwnd = 11, wrect = [0, 0, 800, 600], wshow_cmd = 1\<rparr>,
      \<lparr>wpath = ''C:/B'', hwnd = 13, wrect = [100, 100, 1024, 768], wshow_cmd = 1\<rparr>]
   \<and> (\<exists>payload. snd (save_session ascii_isalnum sample_time sample_shell ''S/'' Map.empty None)
          (fst (save_session ascii_isalnum sample_time sample_shell ''S/'' Map.empty None))
          = Some (Json payload)
        \<and> windows payload = Some
            [\<lparr>path = Some ''C:/A'', rect = Some [0, 0, 800, 600], show_cmd = Some 1\<rparr>,
             \<lparr>path = Some ''C:/B'', rect = Some [100, 100, 1024, 768], show_cmd = Some 1\<rparr>])"
proof -
  have f: "first_occurrences (get_all_explorer_windows sample_shell) =
     [\<lparr>wpath = ''C:/A'', hwnd = 11, wrect = [0, 0, 800, 600], wshow_cmd = 1\<rparr>,
      \<lparr>wpath = ''C:/B'', hwnd = 13, wrect = [100, 100, 1024, 768], wshow_cmd = 1\<rparr>]"
    by (simp add: first_occurrences_def sample_shell_def window_of_def SW_SHOWNORMAL_def)
  note t = save_session_dedup [where shell = sample_shell and isalnum = ascii_isalnum
      and ts = sample_time and dir = "''S/''" and files = Map.empty and nm = None]
  from t have "\<exists>payload.
      snd (save_session ascii_isalnum sample_time sample_shell ''S/'' Map.empty None)
        (fst (save_session ascii_isalnum sample_time sample_shell ''S/'' Map.empty None))
        = Some (Json payload)
      \<and> windows payload = Some (map (\<lambda>w. \<lparr>path = Some (wpath w), rect = Some (wrect w),
           show_cmd = Some (wshow_cmd w)\<rparr>)
             (first_occurrences (get_all_explorer_windows sample_shell)))"
    by (auto simp add: Let_def split_beta)
  then show ?thesis
    unfolding f by simp
qed

lemma save_session_sample:
  "save_session ascii_isalnum sample_time sample_shell ''S/'' Map.empty (Some ''my work!'') =
     (''S/my work.json'',
      [''S/my work.json'' \<mapsto> Json \<lparr>name = Some ''my work!'', saved_at = Some ''2025-10-03T15:52:01'',
         windows = Some [sample_A,
           \<lparr>path = Some ''C:/B'', rect = Some [100, 100, 1024, 768], show_cmd = Some 1\<rparr>]\<rparr>])"
  by (simp add: save_session_def session_payload_def session_filename_def safe_name_def
      strip_def py_isspace_def allowed_def ascii_isalnum_def os_path_join_def sample_time_def
      sample_shell_def window_of_def entry_of_def sample_A_def SW_SHOWNORMAL_def Let_def)

subsection \<open>Listing\<close>

lemma entry_paths_Inr: "entry_paths ws = Inr ps \<Longrightarrow> map path ws = map Some ps"
  by (induction ws arbitrary: ps) (auto split: option.splits sum.splits)

lemma entry_paths_total: "\<forall>w\<in>set ws. path w \<noteq> None \<Longrightarrow> \<exists>ps. entry_paths ws = Inr ps"
  by (induction ws) (auto split: option.splits sum.splits)

lemma card_entry_paths: "entry_paths ws = Inr ps \<Longrightarrow> card (set ps) = card (path ` set ws)"
proof -
  assume "entry_paths ws = Inr ps"
  then have "path ` set ws = Some ` set ps"
    using entry_paths_Inr [of ws ps] by (metis list.set_map)
  then show ?thesis by (simp add: card_image)
qed

lemma length_entry_paths: "entry_paths ws = Inr ps \<Longrightarrow> length ps = length ws"
  using entry_paths_Inr [of ws ps] by (metis length_map)

lemma summarize_counts:
  "summarize files dir filename = Inr s \<Longrightarrow> window_count s \<le> tab_count s"
  by (auto simp add: summarize_def Let_def card_length length_entry_paths [symmetric]
      split: sum.splits)

lemma collect_sessions_mem:
  "s \<in> set (collect_sessions files dir filenames) \<Longrightarrow>
     \<exists>filename\<in>set filenames. summarize files dir filename = Inr s"
  by (induction filenames) (auto split: if_splits sum.splits)

lemma collect_sessions_intro:
  "filename \<in> set filenames \<Longrightarrow> endswith filename ''.json'' \<Longrightarrow>
   summarize files dir filename = Inr s \<Longrightarrow> s \<in> set (collect_sessions files dir filenames)"
  by (induction filenames) (auto split: if_splits sum.splits)

lemma set_list_sessions:
  "set (list_sessions files dir (Some filenames)) = set (collect_sessions files dir filenames)"
  by (simp add: list_sessions_def)

text \<open>
  Claim C8. For every listed \<^verbatim>\<open>.json\<close> file that holds a snapshot whose entries all have a
  path, \<^verbatim>\<open>list_sessions\<close> returns a summary for that file whose \<open>window_count\<close> is the number
  of distinct entry paths and whose \<open>tab_count\<close> is the number of entries. Every summary
  that \<^verbatim>\<open>list_sessions\<close> returns, on any file system and listing, has
  \<open>window_count \<le> tab_count\<close>.
\<close>

theorem list_sessions_counts:
  assumes "filename \<in> set filenames" and "endswith filename ''.json''"
    and "files (os_path_join dir filename) = Some (Json d)"
    and "\<forall>w\<in>set (get_windows d). path w \<noteq> None"
  shows "(\<exists>s\<in>set (list_sessions files dir (Some filenames)).
            s_filepath s = os_path_join dir filename
          \<and> window_count s = card (path ` set (get_windows d))
          \<and> tab_count s = length (get_windows d))
       \<and> (\<forall>s\<in>set (list_sessions files' dir' listdir). window_count s \<le> tab_count s)"
proof
  obtain ps where ps: "entry_paths (get_windows d) = Inr ps"
    using entry_paths_total [OF assms(4)] by blast
  define s where "s = \<lparr>s_filepath = os_path_join dir filename,
       s_name = (case name d of None \<Rightarrow> filename | Some n \<Rightarrow> n),
       s_saved_at = (case saved_at d of None \<Rightarrow> [] | Some t \<Rightarrow> t),
       window_count = card (set ps), tab_count = length (get_windows d)\<rparr>"
  have "summarize files dir filename = Inr s"
    using assms(3) ps by (simp add: summarize_def load_session_def s_def)
  then have "s \<in> set (list_sessions files dir (Some filenames))"
    using collect_sessions_intro [OF assms(1,2)] by (simp add: set_list_sessions)
  moreover have "window_count s = card (path ` set (get_windows d))"
    using card_entry_paths [OF ps] by (simp add: s_def)
  ultimately show "\<exists>s\<in>set (list_sessions files dir (Some filenames)).
            s_filepath s = os_path_join dir filename
          \<and> window_count s = card (path ` set (get_windows d))
          \<and> tab_count s = length (get_windows d)"
    by (intro bexI [of _ s]) (simp_all add: s_def)
next
  show "\<forall>s\<in>set (list_sessions files' dir' listdir). window_count s \<le> tab_count s"
  proof (cases listdir)
    case None
    then show ?thesis by (simp add: list_sessions_def)
  next
    case (Some fns)
    then show ?thesis
      using collect_sessions_mem summarize_counts
      by (fastforce simp add: set_list_sessions)
  qed
qed

lemma list_sessions_sample:
  "list_sessions sample_files ''S/'' (Some [''twice.json'', ''work.json'', ''notes.txt'',
       ''bad.json'', ''home.json'', ''gone.json'']) =
     [\<lparr>s_filepath = ''S/home.json'', s_name = ''home'', s_saved_at = ''2025-10-04T09:00:00'',
       window_count = 1, tab_count = 1\<rparr>,
      \<lparr>s_filepath = ''S/work.json'', s_name = ''work'', s_saved_at = ''2025-10-03T15:52:01'',
       window_count = 2, tab_count = 2\<rparr>,
      \<lparr>s_filepath = ''S/twice.json'', s_name = ''twice.json'', s_saved_at = [],
       window_count = 2, tab_count = 3\<rparr>]"
  by (simp add: list_sessions_def endswith_def summarize_def load_session_def os_path_join_def
      sample_files_def get_windows_def sample_work_def sample_home_def sample_twice_def
      sample_A_def sample_B_def Let_def card_insert_if)

theorem list_sessions_counts_witness:
  "''twice.json'' \<in> set [''twice.json'', ''work.json'']
   \<and> endswith ''twice.json'' ''.json''
   \<and> sample_files (os_path_join ''S/'' ''twice.json'') = Some (Json sample_twice)
   \<and> list_all (\<lambda>w. path w \<noteq> None) (get_windows sample_twice)
   \<and> (\<exists>s\<in>set (list_sessions sample_files ''S/'' (Some [''twice.json'', ''work.json''])).
          s_filepath s = ''S/twice.json'' \<and> window_count s = 2 \<and> tab_count s = 3)"
proof -
  have h1: "''twice.json'' \<in> set [''twice.json'', ''work.json'']" by simp
  have h2: "endswith ''twice.json'' ''.json''" by (simp add: endswith_def)
  have j: "os_path_join ''S/'' ''twice.json'' = ''S/twice.json''"
    by (simp add: os_path_join_def)
  have h3: "sample_files (os_path_join ''S/'' ''twice.json'') = Some (Json sample_twice)"
    unfolding j by (simp add: sample_files_def)
  have g: "get_windows sample_twice = [sample_A, sample_B, sample_A]"
    by (simp add: get_windows_def sample_twice_def)
  have h4: "\<forall>w\<in>set (get_windows sample_twice). path w \<noteq> None"
    unfolding g by (simp add: sample_A_def sample_B_def)
  have c: "card (path ` set (get_windows sample_twice)) = 2"
    unfolding g by (simp add: sample_A_def sample_B_def card_insert_if)
  have l: "length (get_windows sample_twice) = 3"
    unfolding g by simp
  note t = list_sessions_counts [where filename = "''twice.json''"
      and filenames = "[''twice.json'', ''work.json'']" and files = sample_files
      and dir = "''S/''" and d = sample_twice and files' = sample_files and dir' = "''S/''"
      and listdir = None, OF h1 h2 h3 h4]
  have "\<exists>s\<in>set (list_sessions sample_files ''S/'' (Some [''twice.json'', ''work.json''])).
          s_filepath s = ''S/twice.json'' \<and> window_count s = 2 \<and> tab_count s = 3"
    using t unfolding j c l by blast
  then show ?thesis
    using h1 h2 h3 h4 unfolding list_all_iff by blast
qed

subsection \<open>Storage keys\<close>

text \<open>
  Claim C10, as amended. Two non-empty names with the same stripped sequence of allowed
  characters get the same file path, so that the second \<^verbatim>\<open>save_session\<close> replaces the
  snapshot the first one wrote; a non-empty name without any allowed character gets the file
  name \<^verbatim>\<open>.json\<close>.
\<close>

theorem save_session_key_collision:
  "(n1 \<noteq> [] \<and> n2 \<noteq> [] \<and>
      strip (filter (allowed isalnum) n1) = strip (filter (allowed isalnum) n2) \<longrightarrow>
      (let (fp1, files1) = save_session isalnum ts1 shell1 dir files (Some n1);
           (fp2, files2) = save_session isalnum ts2 shell2 dir files1 (Some n2)
       in fp1 = fp2 \<and> files1 fp1 = Some (Json (session_payload ts1 shell1 (Some n1)))
          \<and> files2 fp1 = Some (Json (session_payload ts2 shell2 (Some n2)))))
   \<and> (n \<noteq> [] \<and> (\<forall>c\<in>set n. \<not> allowed isalnum c) \<longrightarrow>
        fst (save_session isalnum ts shell dir files (Some n)) = os_path_join dir ''.json'')"
  by (auto simp add: save_session_def session_filename_def safe_name_def Let_def strip_def
      filter_empty_conv [THEN iffD2])

theorem save_session_key_collision_witness:
  "(''a/b'' \<noteq> [] \<and> ''ab?'' \<noteq> [] \<and>
      strip (filter (allowed ascii_isalnum) ''a/b'') = strip (filter (allowed ascii_isalnum) ''ab?''))
   \<and> (let (fp1, files1) =
              save_session ascii_isalnum sample_time sample_shell ''S/'' Map.empty (Some ''a/b'');
            (fp2, files2) = save_session ascii_isalnum sample_time [] ''S/'' files1 (Some ''ab?'')
        in fp1 = fp2
           \<and> files1 fp1 = Some (Json (session_payload sample_time sample_shell (Some ''a/b'')))
           \<and> files2 fp1 = Some (Json (session_payload sample_time [] (Some ''ab?''))))
   \<and> (''?!'' \<noteq> [] \<and> list_all (\<lambda>c. \<not> allowed ascii_isalnum c) ''?!'')
   \<and> fst (save_session ascii_isalnum sample_time [] ''S/'' Map.empty (Some ''?!''))
       = os_path_join ''S/'' ''.json''"
proof -
  have e: "''a/b'' \<noteq> [] \<and> ''ab?'' \<noteq> [] \<and>
      strip (filter (allowed ascii_isalnum) ''a/b'') = strip (filter (allowed ascii_isalnum) ''ab?'')"
    by (simp add: strip_def allowed_def ascii_isalnum_def py_isspace_def)
  have f: "''?!'' \<noteq> [] \<and> (\<forall>c\<in>set ''?!''. \<not> allowed ascii_isalnum c)"
    by (simp add: allowed_def ascii_isalnum_def)
  note t = save_session_key_collision [where ?n1.0 = "''a/b''" and ?n2.0 = "''ab?''"
      and isalnum = ascii_isalnum and ?ts1.0 = sample_time and ?shell1.0 = sample_shell
      and dir = "''S/''" and files = Map.empty and ?ts2.0 = sample_time and ?shell2.0 = "[]"
      and n = "''?!''" and ts = sample_time and shell = "[]"]
  from t e f show ?thesis unfolding list_all_iff by blast
qed

text \<open>
  Claim C10 as stated fails at the empty name: it has the same (empty) sequence of allowed
  characters as \<^verbatim>\<open>!\<close>, but \<^verbatim>\<open>save_session\<close> treats it as no name and takes the key from
  the time stamp.
\<close>

theorem save_session_empty_name_counterexample:
  "strip (filter (allowed ascii_isalnum) '''') = strip (filter (allowed ascii_isalnum) ''!'')
   \<and> fst (save_session ascii_isalnum sample_time [] ''S/'' Map.empty (Some ''''))
       = ''S/session_20251003_155201.json''
   \<and> fst (save_session ascii_isalnum sample_time [] ''S/'' Map.empty (Some ''!'')) = ''S/.json''"
  by (simp add: save_session_def session_filename_def safe_name_def strip_def allowed_def
      ascii_isalnum_def py_isspace_def os_path_join_def sample_time_def Let_def)

section \<open>Properties of the restore engine\<close>

subsection \<open>Searches and the phases of a pass\<close>

lemma found_handles_append: "found_handles (xs @ ys) = found_handles xs @ found_handles ys"
  by (induction xs rule: found_handles.induct) auto

lemma matching_refl: "matching A s s"
  unfolding matching_def by (intro exI [of _ "[]"]) simp

lemma matching_trans:
  assumes "matching A s s'" and "matching A s' s''"
  shows "matching A s s''"
proof -
  from assms(1) obtain n1 e1 where 1: "to_restore s' = to_restore s @ n1" "trace s' = trace s @ e1"
    "used_hwnds s' = used_hwnds s \<union> set (map fst n1)" "distinct (map fst n1)"
    "set (map fst n1) \<inter> used_hwnds s = {}" "list_all A e1" "found_handles e1 = map fst n1"
    unfolding matching_def by blast
  from assms(2) obtain n2 e2 where 2: "to_restore s'' = to_restore s' @ n2" "trace s'' = trace s' @ e2"
    "used_hwnds s'' = used_hwnds s' \<union> set (map fst n2)" "distinct (map fst n2)"
    "set (map fst n2) \<inter> used_hwnds s' = {}" "list_all A e2" "found_handles e2 = map fst n2"
    unfolding matching_def by blast
  have "to_restore s'' = to_restore s @ (n1 @ n2)" "trace s'' = trace s @ (e1 @ e2)"
    using 1 2 by simp_all
  moreover have "used_hwnds s'' = used_hwnds s \<union> set (map fst (n1 @ n2))"
    using 1 2 by auto
  moreover have "distinct (map fst (n1 @ n2))"
    using 1 2 by auto
  moreover have "set (map fst (n1 @ n2)) \<inter> used_hwnds s = {}"
    using 1 2 by auto
  moreover have "list_all A (e1 @ e2)"
    using 1 2 by simp
  moreover have "found_handles (e1 @ e2) = map fst (n1 @ n2)"
    using 1 2 by (simp add: found_handles_append)
  ultimately show ?thesis
    unfolding matching_def by blast
qed

lemma matching_mono:
  "matching A s s' \<Longrightarrow> (\<And>ev. A ev \<Longrightarrow> B ev) \<Longrightarrow> matching B s s'"
  unfolding matching_def list_all_iff by blast

lemma find_window_by_path_fresh:
  "find_window_by_path wins p used = Some h \<Longrightarrow> h \<notin> used"
  by (induction wins) (auto split: option.splits if_splits)

lemma find_window_by_path_shows:
  "find_window_by_path wins p used = Some h \<Longrightarrow>
     \<exists>w\<in>set wins. sw_folder w = Some p \<and> sw_hwnd w = h"
  by (induction wins) (auto split: option.splits if_splits)

lemma find_window_by_path_none:
  "\<forall>w\<in>set wins. sw_folder w \<noteq> Some p \<Longrightarrow> find_window_by_path wins p used = None"
  by (induction wins) (auto split: option.splits)

lemma matching_hit:
  assumes "find_window_by_path (shell_windows e (enumerations s)) p (used_hwnds s) = Some h"
    and "to_restore s' = to_restore s @ [(h, r, sc)]"
    and "trace s' = trace s @ [FindWindow p (Some h)]"
    and "used_hwnds s' = insert h (used_hwnds s)"
  shows "matching is_find s s'"
  unfolding matching_def
  using assms find_window_by_path_fresh [OF assms(1)]
  by (intro exI [of _ "[(h, r, sc)]"] exI [of _ "[FindWindow p (Some h)]"]) simp

lemma matching_event:
  assumes "to_restore s' = to_restore s" and "trace s' = trace s @ [ev]"
    and "used_hwnds s' = used_hwnds s" and "A ev" and "found_handles [ev] = []"
  shows "matching A s s'"
  unfolding matching_def
  using assms
  by (intro exI [of _ "[]"] exI [of _ "[ev]"]) simp

lemma matching_silent:
  assumes "to_restore s' = to_restore s" and "trace s' = trace s"
    and "used_hwnds s' = used_hwnds s"
  shows "matching A s s'"
  unfolding matching_def
  using assms
  by (intro exI [of _ "[]"]) simp

lemma partition_windows_matching:
  "matching is_find s (partition_windows e ws s)"
proof (induction ws arbitrary: s)
  case Nil
  show ?case by (simp add: matching_refl)
next
  case (Cons w ws)
  show ?case
  proof (cases "truthy (path w)")
    case None
    have "matching is_find s (s\<lparr>skipped := skipped s + 1\<rparr>)"
      by (rule matching_silent) simp_all
    then show ?thesis
      using None Cons [of "s\<lparr>skipped := skipped s + 1\<rparr>"]
      by (auto intro: matching_trans)
  next
    case (Some p)
    show ?thesis
    proof (cases "find_window_by_path (shell_windows e (enumerations s)) p (used_hwnds s)")
      case None
      let ?s' = "s\<lparr>enumerations := enumerations s + 1, trace := trace s @ [FindWindow p None],
         to_open := to_open s @ [(p, rect w, case show_cmd w of None \<Rightarrow> SW_SHOWNORMAL | Some c \<Rightarrow> c)]\<rparr>"
      have "matching is_find s ?s'"
        by (rule matching_event [where ev = "FindWindow p None"]) simp_all
      then show ?thesis
        using None Some Cons [of ?s']
        by (auto simp add: find_step_def Let_def intro: matching_trans)
    next
      case (Some h)
      let ?s' = "s\<lparr>enumerations := enumerations s + 1, trace := trace s @ [FindWindow p (Some h)],
         to_restore := to_restore s @ [(h, rect w, case show_cmd w of None \<Rightarrow> SW_SHOWNORMAL | Some c \<Rightarrow> c)],
         used_hwnds := insert h (used_hwnds s)\<rparr>"
      have "matching is_find s ?s'"
        by (rule matching_hit [OF Some]) simp_all
      then show ?thesis
        using Some \<open>truthy (path w) = Some p\<close> Cons [of ?s']
        by (auto simp add: find_step_def Let_def intro: matching_trans)
    qed
  qed
qed

lemma poll_round_matching:
  "matching is_find s (poll_round e n s)"
proof (induction n arbitrary: s)
  case 0
  show ?case by (simp add: matching_refl)
next
  case (Suc i)
  show ?case
  proof (cases "length (remaining s) \<le> i")
    case True
    then show ?thesis
      by (auto intro: matching_silent)
  next
    case False
    obtain p r sc where t: "remaining s ! i = (p, r, sc)"
      by (cases "remaining s ! i") auto
    show ?thesis
    proof (cases "find_window_by_path (shell_windows e (enumerations s)) p (used_hwnds s)")
      case None
      let ?s' = "s\<lparr>enumerations := enumerations s + 1, trace := trace s @ [FindWindow p None]\<rparr>"
      have "matching is_find s ?s'"
        by (rule matching_event [where ev = "FindWindow p None"]) simp_all
      then show ?thesis
        using None False t Suc [of ?s']
        by (auto simp add: find_step_def Let_def intro: matching_trans)
    next
      case (Some h)
      let ?s' = "s\<lparr>enumerations := enumerations s + 1, trace := trace s @ [FindWindow p (Some h)],
         to_restore := to_restore s @ [(h, r, sc)],
         used_hwnds := insert h (used_hwnds s),
         remaining := take i (remaining s) @ drop (Suc i) (remaining s)\<rparr>"
      have "matching is_find s ?s'"
        by (rule matching_hit [OF Some]) simp_all
      then show ?thesis
        using Some False t Suc [of ?s']
        by (auto simp add: find_step_def Let_def intro: matching_trans)
    qed
  qed
qed

text \<open>
  An invariant rule for the polling loop, by fixpoint induction: a property that each step
  of the loop body keeps holds of every state the loop returns.
\<close>

lemma poll_loop_invariant_aux:
  assumes "poll_loop e d iv s = Some s'"
  shows "(\<forall>s. P s \<longrightarrow> P (s\<lparr>clock_reads := clock_reads s + 1,
                        trace := trace s @ [TimeTime (time_time e (clock_reads s))]\<rparr>))
      \<longrightarrow> (\<forall>s. P s \<longrightarrow> P (poll_round e (length (remaining s)) s))
      \<longrightarrow> (\<forall>s. P s \<longrightarrow> P (s\<lparr>trace := trace s @ [Sleep iv]\<rparr>))
      \<longrightarrow> (\<forall>s. P s \<longrightarrow> P (s\<lparr>raised := Some ValueError\<rparr>))
      \<longrightarrow> P s \<longrightarrow> P s'"
  using assms
proof (induction rule: poll_loop.raw_induct [rotated 1, consumes 1])
  case (1 loop e d iv s s')
  show ?case
  proof (intro impI)
    assume clock: "\<forall>s. P s \<longrightarrow> P (s\<lparr>clock_reads := clock_reads s + 1,
                        trace := trace s @ [TimeTime (time_time e (clock_reads s))]\<rparr>)"
      and round: "\<forall>s. P s \<longrightarrow> P (poll_round e (length (remaining s)) s)"
      and sleep: "\<forall>s. P s \<longrightarrow> P (s\<lparr>trace := trace s @ [Sleep iv]\<rparr>)"
      and raise: "\<forall>s. P s \<longrightarrow> P (s\<lparr>raised := Some ValueError\<rparr>)"
      and P: "P s"
    let ?s1 = "s\<lparr>clock_reads := clock_reads s + 1,
                        trace := trace s @ [TimeTime (time_time e (clock_reads s))]\<rparr>"
    let ?s2 = "poll_round e (length (remaining s)) ?s1"
    let ?s3 = "?s2\<lparr>trace := trace ?s2 @ [Sleep iv]\<rparr>"
    have P1: "P ?s1" by (rule clock [rule_format, OF P])
    have "P (poll_round e (length (remaining ?s1)) ?s1)" by (rule round [rule_format, OF P1])
    then have P2: "P ?s2" by simp
    have P3: "P ?s3" by (rule sleep [rule_format, OF P2])
    have P4: "P (?s2\<lparr>raised := Some ValueError\<rparr>)" by (rule raise [rule_format, OF P2])
    have r2: "P s'" if "loop e d iv ?s2 = Some s'"
      using 1(1) [OF that, rule_format, OF clock [rule_format] round [rule_format]
          sleep [rule_format] raise [rule_format] P2] .
    have r3: "P s'" if "loop e d iv ?s3 = Some s'"
      using 1(1) [OF that, rule_format, OF clock [rule_format] round [rule_format]
          sleep [rule_format] raise [rule_format] P3] .
    show "P s'"
    proof (cases "remaining s = []")
      case True
      with 1(2) P show ?thesis by simp
    next
      case ne: False
      show ?thesis
      proof (cases "time_time e (clock_reads s) < d")
        case False
        with 1(2) ne P1 show ?thesis by (simp add: Let_def)
      next
        case lt: True
        show ?thesis
        proof (cases "raised ?s2 = None")
          case False
          with 1(2) ne lt P2 show ?thesis by (simp add: Let_def)
        next
          case nr: True
          show ?thesis
          proof (cases "remaining ?s2 = []")
            case True
            with 1(2) ne lt nr have "loop e d iv ?s2 = Some s'" by (simp add: Let_def)
            then show ?thesis by (rule r2)
          next
            case more: False
            show ?thesis
            proof (cases "iv < 0")
              case True
              with 1(2) ne lt nr more P4 show ?thesis by (simp add: Let_def)
            next
              case False
              with 1(2) ne lt nr more have "loop e d iv ?s3 = Some s'" by (simp add: Let_def)
              then show ?thesis by (rule r3)
            qed
          qed
        qed
      qed
    qed
  qed
qed

lemma poll_loop_invariant:
  assumes run: "poll_loop e d iv s = Some s'"
    and init: "P s"
    and clock: "\<And>s. P s \<Longrightarrow> P (s\<lparr>clock_reads := clock_reads s + 1,
                        trace := trace s @ [TimeTime (time_time e (clock_reads s))]\<rparr>)"
    and round: "\<And>s. P s \<Longrightarrow> P (poll_round e (length (remaining s)) s)"
    and sleep: "\<And>s. P s \<Longrightarrow> P (s\<lparr>trace := trace s @ [Sleep iv]\<rparr>)"
    and raise: "\<And>s. P s \<Longrightarrow> P (s\<lparr>raised := Some ValueError\<rparr>)"
  shows "P s'"
  using poll_loop_invariant_aux [OF run, of P, rule_format, OF clock round sleep raise init] .

subsection \<open>The phases one by one\<close>

lemma launch_all_eq:
  "launch_all e i ts s =
     s\<lparr>skipped := skipped s + launch_failures e i ts, trace := trace s @ launch_events e i ts\<rparr>"
  by (induction e i ts s rule: launch_all.induct) simp_all

lemma found_handles_launch: "found_handles (launch_events e i ts) = []"
  by (induction e i ts rule: launch_events.induct) simp_all

lemma steady_refl: "steady s s"
  by (simp add: steady_def)

lemma steady_trans: "steady s s' \<Longrightarrow> steady s' s'' \<Longrightarrow> steady s s''"
  by (simp add: steady_def)

lemma poll_round_steady:
  "n \<le> length (remaining s) \<Longrightarrow>
     steady s (poll_round e n s) \<and> raised (poll_round e n s) = raised s
     \<and> clock_reads (poll_round e n s) = clock_reads s"
proof (induction n arbitrary: s)
  case 0
  show ?case by (simp add: steady_refl)
next
  case (Suc i)
  then have lt: "i < length (remaining s)" by simp
  obtain p r sc where t: "remaining s ! i = (p, r, sc)"
    by (cases "remaining s ! i") auto
  show ?case
  proof (cases "find_window_by_path (shell_windows e (enumerations s)) p (used_hwnds s)")
    case None
    let ?s' = "s\<lparr>enumerations := enumerations s + 1, trace := trace s @ [FindWindow p None]\<rparr>"
    have "i \<le> length (remaining ?s')" using lt by simp
    from Suc.IH [OF this] have "steady ?s' (poll_round e i ?s')"
      "raised (poll_round e i ?s') = raised s" "clock_reads (poll_round e i ?s') = clock_reads s"
      by simp_all
    moreover have "steady s ?s'" by (simp add: steady_def)
    moreover have "poll_round e (Suc i) s = poll_round e i ?s'"
      using None lt t by (simp add: find_step_def Let_def)
    ultimately show ?thesis
      by (auto intro: steady_trans)
  next
    case (Some h)
    let ?s' = "s\<lparr>enumerations := enumerations s + 1, trace := trace s @ [FindWindow p (Some h)],
         to_restore := to_restore s @ [(h, r, sc)],
         used_hwnds := insert h (used_hwnds s),
         remaining := take i (remaining s) @ drop (Suc i) (remaining s)\<rparr>"
    have len: "length (take i (remaining s) @ drop (Suc i) (remaining s)) = length (remaining s) - 1"
      using lt by simp
    have "i \<le> length (remaining ?s')" using lt by simp
    from Suc.IH [OF this] have "steady ?s' (poll_round e i ?s')"
      "raised (poll_round e i ?s') = raised s" "clock_reads (poll_round e i ?s') = clock_reads s"
      by simp_all
    moreover have "steady s ?s'" using lt by (simp add: steady_def)
    moreover have "poll_round e (Suc i) s = poll_round e i ?s'"
      using Some lt t by (simp add: find_step_def Let_def)
    ultimately show ?thesis
      by (auto intro: steady_trans)
  qed
qed

lemma poll_loop_steady:
  assumes "poll_loop e d iv s = Some s'"
  shows "steady s s'"
proof (rule poll_loop_invariant [OF assms, where P = "steady s"])
  show "steady s s" by (rule steady_refl)
next
  fix x assume "steady s x"
  then show "steady s (x\<lparr>clock_reads := clock_reads x + 1,
      trace := trace x @ [TimeTime (time_time e (clock_reads x))]\<rparr>)"
    by (simp add: steady_def)
next
  fix x assume "steady s x"
  then show "steady s (poll_round e (length (remaining x)) x)"
    using poll_round_steady [of "length (remaining x)" x e] by (auto intro: steady_trans)
next
  fix x assume "steady s x"
  then show "steady s (x\<lparr>trace := trace x @ [Sleep iv]\<rparr>)"
    by (simp add: steady_def)
next
  fix x assume "steady s x"
  then show "steady s (x\<lparr>raised := Some ValueError\<rparr>)"
    by (simp add: steady_def)
qed

lemma poll_loop_matching:
  assumes "poll_loop e d iv s = Some s'"
  shows "matching is_wait s s'"
proof (rule poll_loop_invariant [OF assms, where P = "matching is_wait s"])
  show "matching is_wait s s" by (rule matching_refl)
next
  fix x assume a: "matching is_wait s x"
  let ?ev = "TimeTime (time_time e (clock_reads x))"
  have "matching is_wait x (x\<lparr>clock_reads := clock_reads x + 1, trace := trace x @ [?ev]\<rparr>)"
    by (rule matching_event [where ev = "?ev"]) simp_all
  with a show "matching is_wait s (x\<lparr>clock_reads := clock_reads x + 1, trace := trace x @ [?ev]\<rparr>)"
    by (rule matching_trans)
next
  fix x assume a: "matching is_wait s x"
  have "matching is_find x (poll_round e (length (remaining x)) x)"
    by (rule poll_round_matching)
  then have "matching is_wait x (poll_round e (length (remaining x)) x)"
    by (rule matching_mono) (case_tac ev, simp_all)
  with a show "matching is_wait s (poll_round e (length (remaining x)) x)"
    by (rule matching_trans)
next
  fix x assume a: "matching is_wait s x"
  have "matching is_wait x (x\<lparr>trace := trace x @ [Sleep iv]\<rparr>)"
    by (rule matching_event [where ev = "Sleep iv"]) simp_all
  with a show "matching is_wait s (x\<lparr>trace := trace x @ [Sleep iv]\<rparr>)"
    by (rule matching_trans)
next
  fix x assume a: "matching is_wait s x"
  have "matching is_wait x (x\<lparr>raised := Some ValueError\<rparr>)"
    by (rule matching_silent) simp_all
  with a show "matching is_wait s (x\<lparr>raised := Some ValueError\<rparr>)"
    by (rule matching_trans)
qed

lemma wait_for_windows_matching:
  assumes "wait_for_windows e ot iv s = Some s'"
  shows "matching is_wait s s'"
proof (cases "to_open s = []")
  case True
  with assms show ?thesis by (simp add: wait_for_windows_def matching_refl)
next
  case False
  let ?ev = "TimeTime (time_time e (clock_reads s))"
  let ?s1 = "s\<lparr>clock_reads := clock_reads s + 1, trace := trace s @ [?ev], remaining := to_open s\<rparr>"
  from assms False obtain s2 where
    run: "poll_loop e (time_time e (clock_reads s) + ot) iv ?s1 = Some s2"
    and fin: "s' = (if raised s2 \<noteq> None then s2 else s2\<lparr>skipped := skipped s2 + length (remaining s2)\<rparr>)"
    by (auto simp add: wait_for_windows_def Let_def split: option.splits if_splits)
  have "matching is_wait s ?s1"
    by (rule matching_event [where ev = "?ev"]) simp_all
  moreover have "matching is_wait ?s1 s2"
    using run by (rule poll_loop_matching)
  moreover have "matching is_wait s2 s'"
    unfolding fin by (rule matching_silent) simp_all
  ultimately show ?thesis
    by (blast intro: matching_trans)
qed

lemma wait_for_windows_to_open:
  assumes "wait_for_windows e ot iv s = Some s'"
  shows "to_open s' = to_open s"
proof (cases "to_open s = []")
  case True
  with assms show ?thesis by (simp add: wait_for_windows_def)
next
  case False
  let ?ev = "TimeTime (time_time e (clock_reads s))"
  let ?s1 = "s\<lparr>clock_reads := clock_reads s + 1, trace := trace s @ [?ev], remaining := to_open s\<rparr>"
  from assms False obtain s2 where
    run: "poll_loop e (time_time e (clock_reads s) + ot) iv ?s1 = Some s2"
    and fin: "s' = (if raised s2 \<noteq> None then s2 else s2\<lparr>skipped := skipped s2 + length (remaining s2)\<rparr>)"
    by (auto simp add: wait_for_windows_def Let_def split: option.splits if_splits)
  from poll_loop_steady [OF run] show ?thesis
    unfolding fin by (simp add: steady_def)
qed

lemma wait_for_windows_count:
  assumes "wait_for_windows e ot iv s = Some s'" and "raised s' = None"
  shows "length (to_restore s') + skipped s' = length (to_restore s) + length (to_open s) + skipped s
         \<and> restored s' = restored s"
proof (cases "to_open s = []")
  case True
  with assms show ?thesis by (simp add: wait_for_windows_def)
next
  case False
  let ?ev = "TimeTime (time_time e (clock_reads s))"
  let ?s1 = "s\<lparr>clock_reads := clock_reads s + 1, trace := trace s @ [?ev], remaining := to_open s\<rparr>"
  from assms False obtain s2 where
    run: "poll_loop e (time_time e (clock_reads s) + ot) iv ?s1 = Some s2"
    and fin: "s' = (if raised s2 \<noteq> None then s2 else s2\<lparr>skipped := skipped s2 + length (remaining s2)\<rparr>)"
    by (auto simp add: wait_for_windows_def Let_def split: option.splits if_splits)
  from assms(2) fin have s': "s' = s2\<lparr>skipped := skipped s2 + length (remaining s2)\<rparr>"
    by (auto split: if_splits)
  from poll_loop_steady [OF run] show ?thesis
    unfolding s' by (simp add: steady_def)
qed

lemma partition_windows_count:
  "length (to_restore (partition_windows e ws s)) + length (to_open (partition_windows e ws s))
     + skipped (partition_windows e ws s)
     = length (to_restore s) + length (to_open s) + skipped s + length ws
   \<and> restored (partition_windows e ws s) = restored s
   \<and> raised (partition_windows e ws s) = raised s
   \<and> clock_reads (partition_windows e ws s) = clock_reads s"
proof (induction ws arbitrary: s)
  case Nil
  show ?case by simp
next
  case (Cons w ws)
  show ?case
  proof (cases "truthy (path w)")
    case None
    then show ?thesis
      using Cons [of "s\<lparr>skipped := skipped s + 1\<rparr>"] by simp
  next
    case (Some p)
    show ?thesis
    proof (cases "find_window_by_path (shell_windows e (enumerations s)) p (used_hwnds s)")
      case None
      let ?s' = "s\<lparr>enumerations := enumerations s + 1, trace := trace s @ [FindWindow p None],
         to_open := to_open s @ [(p, rect w, case show_cmd w of None \<Rightarrow> SW_SHOWNORMAL | Some c \<Rightarrow> c)]\<rparr>"
      have "partition_windows e (w # ws) s = partition_windows e ws ?s'"
        using None Some by (simp add: find_step_def Let_def)
      then show ?thesis
        using Cons [of ?s'] by simp
    next
      case (Some h)
      let ?s' = "s\<lparr>enumerations := enumerations s + 1, trace := trace s @ [FindWindow p (Some h)],
         to_restore := to_restore s @ [(h, rect w, case show_cmd w of None \<Rightarrow> SW_SHOWNORMAL | Some c \<Rightarrow> c)],
         used_hwnds := insert h (used_hwnds s)\<rparr>"
      have "partition_windows e (w # ws) s = partition_windows e ws ?s'"
        using Some \<open>truthy (path w) = Some p\<close> by (simp add: find_step_def Let_def)
      then show ?thesis
        using Cons [of ?s'] by simp
    qed
  qed
qed

lemma apply_all_trace:
  "\<exists>G. trace (apply_all e i ms s) = trace s @ G \<and> list_all is_geometry G
       \<and> set (geometry_handles G) \<subseteq> set (map fst ms) \<and> found_handles G = []"
proof (induction e i ms s rule: apply_all.induct)
  case (1 e i s)
  show ?case by simp
next
  case (2 e i h r sc rest s)
  show ?case
  proof (cases "unpack_rect r")
    case (Inl err)
    then show ?thesis by (simp add: apply_geometry_def)
  next
    case (Inr xs)
    let ?ok = "geometry_ok e i"
    let ?ev = "ApplyGeometry h xs (show_window_cmd sc) ?ok"
    let ?s' = "(if ?ok then s\<lparr>restored := restored s + 1\<rparr> else s\<lparr>skipped := skipped s + 1\<rparr>)
                 \<lparr>trace := trace s @ [?ev]\<rparr>"
    have eq: "apply_all e i ((h, r, sc) # rest) s = apply_all e (i + 1) rest ?s'"
      using Inr by (simp add: apply_geometry_def)
    from 2 [of "(?ok, ?ev)" ?ok ?ev] Inr
    obtain G where G: "trace (apply_all e (i + 1) rest ?s') = trace ?s' @ G" "list_all is_geometry G"
      "set (geometry_handles G) \<subseteq> set (map fst rest)" "found_handles G = []"
      by (auto simp add: apply_geometry_def)
    show ?thesis
      unfolding eq
      using G by (intro exI [of _ "?ev # G"]) auto
  qed
qed

lemma apply_all_fields:
  "to_restore (apply_all e i ms s) = to_restore s \<and> to_open (apply_all e i ms s) = to_open s
   \<and> used_hwnds (apply_all e i ms s) = used_hwnds s"
  by (induction e i ms s rule: apply_all.induct)
     (auto simp add: apply_geometry_def split: sum.splits)

lemma apply_all_count:
  "raised (apply_all e i ms s) = None \<Longrightarrow>
     restored (apply_all e i ms s) + skipped (apply_all e i ms s)
       = restored s + skipped s + length ms"
  by (induction e i ms s rule: apply_all.induct)
     (auto simp add: apply_geometry_def split: sum.splits if_splits)

lemma matching_initial:
  assumes "matching A initial s"
  shows "distinct (map fst (to_restore s)) \<and> set (map fst (to_restore s)) = used_hwnds s
         \<and> found_handles (trace s) = map fst (to_restore s) \<and> list_all A (trace s)"
  using assms unfolding matching_def initial_def by auto

lemma is_find_wait: "is_find ev \<Longrightarrow> is_wait ev"
  by (cases ev) simp_all

subsection \<open>Handles and the order of calls\<close>

text \<open>The phases of one pass, with the events of each.\<close>

lemma match_windows_phases:
  assumes "match_windows e ws ot iv = Some s"
  shows "\<exists>D W. trace s = D @ launch_events e 0 (to_open s) @ W
           \<and> list_all is_find D \<and> list_all is_wait W
           \<and> found_handles (D @ W) = map fst (to_restore s)
           \<and> distinct (map fst (to_restore s))
           \<and> set (map fst (to_restore s)) = used_hwnds s"
proof -
  let ?s1 = "partition_windows e ws initial"
  let ?s2 = "launch_all e 0 (to_open ?s1) ?s1"
  have run: "wait_for_windows e ot iv ?s2 = Some s"
    using assms by (simp add: match_windows_def Let_def)
  have m1: "matching is_find initial ?s1"
    by (rule partition_windows_matching)
  from m1 obtain D where D: "trace ?s1 = D" "list_all is_find D"
    "found_handles D = map fst (to_restore ?s1)" "distinct (map fst (to_restore ?s1))"
    "used_hwnds ?s1 = set (map fst (to_restore ?s1))"
    using matching_initial [OF m1] by auto
  have s2: "trace ?s2 = D @ launch_events e 0 (to_open ?s1)" "to_restore ?s2 = to_restore ?s1"
    "used_hwnds ?s2 = used_hwnds ?s1" "to_open ?s2 = to_open ?s1"
    using D(1) by (simp_all add: launch_all_eq)
  from wait_for_windows_matching [OF run]
  obtain new W where W: "to_restore s = to_restore ?s2 @ new" "trace s = trace ?s2 @ W"
    "used_hwnds s = used_hwnds ?s2 \<union> set (map fst new)" "distinct (map fst new)"
    "set (map fst new) \<inter> used_hwnds ?s2 = {}" "list_all is_wait W"
    "found_handles W = map fst new"
    unfolding matching_def by blast
  have o: "to_open s = to_open ?s1"
    using wait_for_windows_to_open [OF run] s2(4) by simp
  have "trace s = D @ launch_events e 0 (to_open s) @ W"
    using W(2) s2(1) o by simp
  moreover have "found_handles (D @ W) = map fst (to_restore s)"
    using D(3) W(1,7) s2(2) by (simp add: found_handles_append)
  moreover have "distinct (map fst (to_restore s))"
    using D(4,5) W(1,4,5) s2(2,3) by auto
  moreover have "set (map fst (to_restore s)) = used_hwnds s"
    using D(5) W(1,3) s2(2,3) by auto
  ultimately show ?thesis
    using D(2) W(6) by blast
qed

lemma restore_windows_cases:
  assumes "restore_windows e ws ot iv = Some s"
  obtains m where "match_windows e ws ot iv = Some m"
    and "s = (if raised m \<noteq> None then m else apply_all e 0 (to_restore m) m)"
  using assms by (auto simp add: restore_windows_def split: option.splits if_splits)

text \<open>
  Claim C3. In a pass that returns or raises, the handles of the matched list
  \<^verbatim>\<open>to_restore\<close> are pairwise distinct, they are exactly the claimed handles, and they are,
  in order, the handles that the searches of the pass found, in the detection loop and in
  the polling rounds alike; a search never returns a handle of the claimed set it is given.
\<close>

theorem restore_handles_distinct:
  assumes "restore_windows e ws ot iv = Some s"
  shows "distinct (map fst (to_restore s))
       \<and> set (map fst (to_restore s)) = used_hwnds s
       \<and> found_handles (trace s) = map fst (to_restore s)
       \<and> (find_window_by_path wins p used = Some h \<longrightarrow> h \<notin> used)"
proof -
  from assms obtain m where m: "match_windows e ws ot iv = Some m"
    and s: "s = (if raised m \<noteq> None then m else apply_all e 0 (to_restore m) m)"
    by (rule restore_windows_cases)
  from match_windows_phases [OF m] obtain D W where
    p: "trace m = D @ launch_events e 0 (to_open m) @ W"
       "found_handles (D @ W) = map fst (to_restore m)"
       "distinct (map fst (to_restore m))" "set (map fst (to_restore m)) = used_hwnds m"
    by blast
  have fm: "found_handles (trace m) = map fst (to_restore m)"
    using p(1,2) by (simp add: found_handles_append found_handles_launch)
  obtain G where G: "trace (apply_all e 0 (to_restore m) m) = trace m @ G" "found_handles G = []"
    using apply_all_trace [of e 0 "to_restore m" m] by blast
  have "to_restore s = to_restore m" "used_hwnds s = used_hwnds m"
    "found_handles (trace s) = found_handles (trace m)"
    using s G by (simp_all add: apply_all_fields found_handles_append)
  then show ?thesis
    using p(3,4) fm find_window_by_path_fresh [of wins p used h] by simp
qed

text \<open>
  Claim C9. The calls of a pass come in four blocks: the searches of the detection loop,
  then one launch request for each needs-launch entry, then the waiting phase (clock
  readings, searches and sleeps, no launch), then the geometry calls; every handle that
  geometry is applied to was found by a search of an earlier block.
\<close>

theorem restore_event_order:
  assumes "restore_windows e ws ot iv = Some s"
  shows "\<exists>D W G. trace s = D @ launch_events e 0 (to_open s) @ W @ G
           \<and> list_all is_find D \<and> list_all is_wait W \<and> list_all is_geometry G
           \<and> set (geometry_handles G) \<subseteq> set (found_handles (D @ W))"
proof -
  from assms obtain m where m: "match_windows e ws ot iv = Some m"
    and s: "s = (if raised m \<noteq> None then m else apply_all e 0 (to_restore m) m)"
    by (rule restore_windows_cases)
  from match_windows_phases [OF m] obtain D W where
    p: "trace m = D @ launch_events e 0 (to_open m) @ W" "list_all is_find D" "list_all is_wait W"
       "found_handles (D @ W) = map fst (to_restore m)"
    by blast
  show ?thesis
  proof (cases "raised m \<noteq> None")
    case True
    then have "s = m" using s by simp
    then have "trace s = D @ launch_events e 0 (to_open s) @ W @ []"
      using p(1) by simp
    then show ?thesis
      using p(2,3) by (intro exI [of _ D] exI [of _ W] exI [of _ "[]"]) simp
  next
    case False
    then have s': "s = apply_all e 0 (to_restore m) m" using s by simp
    obtain G where G: "trace s = trace m @ G" "list_all is_geometry G"
      "set (geometry_handles G) \<subseteq> set (map fst (to_restore m))"
      unfolding s' using apply_all_trace [of e 0 "to_restore m" m] by blast
    have "to_open s = to_open m"
      unfolding s' by (simp add: apply_all_fields)
    then have "trace s = D @ launch_events e 0 (to_open s) @ W @ G"
      using G(1) p(1) by simp
    then show ?thesis
      using p(2,3,4) G(2,3) by (intro exI [of _ D] exI [of _ W] exI [of _ G]) simp
  qed
qed

subsection \<open>Counting\<close>

text \<open>The exact sum of the two counts: every entry once, and every failed launch once more.\<close>

lemma restore_windows_count:
  assumes "restore_windows e ws ot iv = Some s" and "raised s = None"
  shows "restored s + skipped s = length ws + launch_failures e 0 (to_open s)"
proof -
  let ?s1 = "partition_windows e ws initial"
  let ?s2 = "launch_all e 0 (to_open ?s1) ?s1"
  from assms(1) obtain m where m: "match_windows e ws ot iv = Some m"
    and s: "s = (if raised m \<noteq> None then m else apply_all e 0 (to_restore m) m)"
    by (rule restore_windows_cases)
  have rm: "raised m = None"
    using s assms(2) by (auto split: if_splits)
  then have s': "s = apply_all e 0 (to_restore m) m"
    using s by simp
  have run: "wait_for_windows e ot iv ?s2 = Some m"
    using m by (simp add: match_windows_def Let_def)
  have c1: "length (to_restore ?s1) + length (to_open ?s1) + skipped ?s1 = length ws"
    "restored ?s1 = 0"
    using partition_windows_count [of e ws initial] by (simp_all add: initial_def)
  have c2: "length (to_restore ?s2) + length (to_open ?s2) + skipped ?s2
              = length ws + launch_failures e 0 (to_open ?s1)" "restored ?s2 = 0"
    using c1 by (simp_all add: launch_all_eq)
  have c3: "length (to_restore m) + skipped m = length ws + launch_failures e 0 (to_open ?s1)"
    "restored m = 0"
    using wait_for_windows_count [OF run rm] c2 by simp_all
  have o: "to_open s = to_open ?s1"
    using wait_for_windows_to_open [OF run] unfolding s'
    by (simp add: apply_all_fields launch_all_eq)
  have "restored s + skipped s = restored m + skipped m + length (to_restore m)"
    using assms(2) unfolding s' by (rule apply_all_count)
  then show ?thesis
    using c3 o by simp
qed

lemma launch_failures_zero: "\<forall>i. popen_ok e i \<Longrightarrow> launch_failures e i ts = 0"
  by (induction ts arbitrary: i) simp_all

text \<open>
  Claim C1, as amended. When no launch request fails and \<^verbatim>\<open>restore_session\<close> returns a
  pair, the two counts add up to the number of all entries of the snapshot: an entry with
  an empty or missing path is counted as skipped.
\<close>

theorem restore_session_count:
  assumes "\<forall>i. popen_ok e i"
    and "files fp = Some (Json d)"
    and "restore_session e files fp ot iv = Some (Inr (r, k))"
  shows "r + k = length (get_windows d)"
proof -
  from assms(2) have "load_session files fp = Inr d"
    by (simp add: load_session_def)
  with assms(3) obtain s where s: "restore_windows e (get_windows d) ot iv = Some s"
    "raised s = None" "r = restored s" "k = skipped s"
    by (auto simp add: restore_session_def split: option.splits)
  from restore_windows_count [OF s(1,2)] launch_failures_zero [OF assms(1)] s(3,4)
  show ?thesis by simp
qed

subsection \<open>The pass returns\<close>

text \<open>
  The loop ends as soon as a clock reading reaches the deadline, so \<^verbatim>\<open>restore_session\<close>
  has a result whenever some later reading of the clock is at or beyond the deadline.
\<close>

lemma poll_loop_returns:
  assumes "clock_reads s \<le> k" and "d \<le> time_time e k"
  shows "\<exists>s'. poll_loop e d iv s = Some s'"
  using assms
proof (induction "k - clock_reads s" arbitrary: s)
  case 0
  then have "\<not> time_time e (clock_reads s) < d" by simp
  then show ?case
    by (subst poll_loop.simps) (simp add: Let_def)
next
  case (Suc n)
  let ?s1 = "s\<lparr>clock_reads := clock_reads s + 1,
                trace := trace s @ [TimeTime (time_time e (clock_reads s))]\<rparr>"
  let ?s2 = "poll_round e (length (remaining s)) ?s1"
  let ?s3 = "?s2\<lparr>trace := trace ?s2 @ [Sleep iv]\<rparr>"
  have c: "clock_reads ?s2 = clock_reads s + 1"
    using poll_round_steady [of "length (remaining s)" ?s1 e] by simp
  have "n = k - clock_reads ?s2" "clock_reads ?s2 \<le> k"
    using Suc(2) c by simp_all
  from Suc(1) [OF this Suc(4)] obtain a where a: "poll_loop e d iv ?s2 = Some a" by blast
  have "n = k - clock_reads ?s3" "clock_reads ?s3 \<le> k"
    using Suc(2) c by simp_all
  from Suc(1) [OF this Suc(4)] obtain b where b: "poll_loop e d iv ?s3 = Some b" by blast
  have "poll_loop e d iv s =
      (if remaining s = [] then Some s
       else if \<not> time_time e (clock_reads s) < d then Some ?s1
       else if raised ?s2 \<noteq> None then Some ?s2
       else if remaining ?s2 = [] then poll_loop e d iv ?s2
       else if iv < 0 then Some (?s2\<lparr>raised := Some ValueError\<rparr>)
       else poll_loop e d iv ?s3)"
    by (subst poll_loop.simps) (simp add: Let_def)
  then show ?case
    using a b by auto
qed

lemma restore_session_returns:
  assumes "1 \<le> k" and "time_time e 0 + ot \<le> time_time e k"
  shows "\<exists>res. restore_session e files fp ot iv = Some res"
proof (cases "load_session files fp")
  case (Inl err)
  then show ?thesis by (simp add: restore_session_def)
next
  case (Inr d)
  let ?s1 = "partition_windows e (get_windows d) initial"
  let ?s2 = "launch_all e 0 (to_open ?s1) ?s1"
  let ?s3 = "?s2\<lparr>clock_reads := clock_reads ?s2 + 1,
       trace := trace ?s2 @ [TimeTime (time_time e (clock_reads ?s2))], remaining := to_open ?s2\<rparr>"
  have c: "clock_reads ?s2 = 0"
    using partition_windows_count [of e "get_windows d" initial]
    by (simp add: launch_all_eq initial_def)
  then have "clock_reads ?s3 \<le> k" using assms(1) by simp
  from poll_loop_returns [OF this assms(2)]
  obtain a where "poll_loop e (time_time e 0 + ot) iv ?s3 = Some a" by blast
  then have "\<exists>m. wait_for_windows e ot iv ?s2 = Some m"
    using c by (simp add: wait_for_windows_def Let_def)
  then have "\<exists>s. restore_windows e (get_windows d) ot iv = Some s"
    by (auto simp add: restore_windows_def match_windows_def Let_def)
  then show ?thesis
    using Inr by (auto simp add: restore_session_def split: option.splits)
qed

subsection \<open>A pass in which nothing matches\<close>

lemma poll_round_idle:
  assumes "\<forall>n. \<forall>sw\<in>set (shell_windows e n). \<forall>t\<in>set (remaining s). sw_folder sw \<noteq> Some (fst t)"
    and "n \<le> length (remaining s)"
  shows "idle s (poll_round e n s)"
  using assms
proof (induction n arbitrary: s)
  case 0
  show ?case by (simp add: idle_def)
next
  case (Suc i)
  then have lt: "i < length (remaining s)" by simp
  obtain p r sc where t: "remaining s ! i = (p, r, sc)"
    by (cases "remaining s ! i") auto
  have "(p, r, sc) \<in> set (remaining s)"
    using lt t by (metis nth_mem)
  then have "\<forall>sw\<in>set (shell_windows e (enumerations s)). sw_folder sw \<noteq> Some p"
    using Suc(2) by fastforce
  then have n: "find_window_by_path (shell_windows e (enumerations s)) p (used_hwnds s) = None"
    by (rule find_window_by_path_none)
  let ?s' = "s\<lparr>enumerations := enumerations s + 1, trace := trace s @ [FindWindow p None]\<rparr>"
  have eq: "poll_round e (Suc i) s = poll_round e i ?s'"
    using n lt t by (simp add: find_step_def Let_def)
  have "idle ?s' (poll_round e i ?s')"
    using Suc(2) lt by (intro Suc(1)) simp_all
  then show ?case
    unfolding eq by (simp add: idle_def)
qed

lemma poll_loop_idle:
  assumes run: "poll_loop e d iv s = Some s'"
    and "\<forall>n. \<forall>sw\<in>set (shell_windows e n). \<forall>t\<in>set (remaining s). sw_folder sw \<noteq> Some (fst t)"
  shows "idle s s'"
proof (rule poll_loop_invariant [OF run, where P = "idle s"])
  show "idle s s" by (simp add: idle_def)
next
  fix x assume "idle s x"
  then show "idle s (x\<lparr>clock_reads := clock_reads x + 1,
      trace := trace x @ [TimeTime (time_time e (clock_reads x))]\<rparr>)"
    by (simp add: idle_def)
next
  fix x assume a: "idle s x"
  then have "remaining x = remaining s" by (simp add: idle_def)
  then have "idle x (poll_round e (length (remaining x)) x)"
    using assms(2) by (intro poll_round_idle) simp_all
  with a show "idle s (poll_round e (length (remaining x)) x)"
    by (simp add: idle_def)
next
  fix x assume "idle s x"
  then show "idle s (x\<lparr>trace := trace x @ [Sleep iv]\<rparr>)"
    by (simp add: idle_def)
next
  fix x assume "idle s x"
  then show "idle s (x\<lparr>raised := Some ValueError\<rparr>)"
    by (simp add: idle_def)
qed

lemma partition_windows_unmatched:
  assumes "\<forall>w\<in>set ws. \<exists>p. path w = Some p \<and> p \<noteq> []"
    and "\<forall>n. \<forall>sw\<in>set (shell_windows e n). \<forall>w\<in>set ws. sw_folder sw \<noteq> path w"
  shows "to_restore (partition_windows e ws s) = to_restore s
       \<and> length (to_open (partition_windows e ws s)) = length (to_open s) + length ws
       \<and> skipped (partition_windows e ws s) = skipped s
       \<and> set (map fst (to_open (partition_windows e ws s)))
           = set (map fst (to_open s)) \<union> {p. Some p \<in> path ` set ws}"
  using assms
proof (induction ws arbitrary: s)
  case Nil
  show ?case by simp
next
  case (Cons w ws)
  from Cons(2) obtain p where p: "path w = Some p" "p \<noteq> []" by auto
  have "\<forall>sw\<in>set (shell_windows e (enumerations s)). sw_folder sw \<noteq> Some p"
    using Cons(3) p by auto
  then have n: "find_window_by_path (shell_windows e (enumerations s)) p (used_hwnds s) = None"
    by (rule find_window_by_path_none)
  let ?s' = "s\<lparr>enumerations := enumerations s + 1, trace := trace s @ [FindWindow p None],
         to_open := to_open s @ [(p, rect w, case show_cmd w of None \<Rightarrow> SW_SHOWNORMAL | Some c \<Rightarrow> c)]\<rparr>"
  have eq: "partition_windows e (w # ws) s = partition_windows e ws ?s'"
    using n p by (simp add: find_step_def Let_def)
  have "\<forall>w\<in>set ws. \<exists>p. path w = Some p \<and> p \<noteq> []"
    "\<forall>n. \<forall>sw\<in>set (shell_windows e n). \<forall>w\<in>set ws. sw_folder sw \<noteq> path w"
    using Cons(2,3) by auto
  from Cons(1) [OF this, of ?s'] show ?case
    unfolding eq using p by auto
qed

lemma restore_windows_unmatched:
  assumes "\<forall>w\<in>set ws. \<exists>p. path w = Some p \<and> p \<noteq> []"
    and "\<forall>n. \<forall>sw\<in>set (shell_windows e n). \<forall>w\<in>set ws. sw_folder sw \<noteq> path w"
    and "\<forall>i. popen_ok e i"
    and "restore_windows e ws ot iv = Some s" and "raised s = None"
  shows "restored s = 0 \<and> skipped s = length ws"
proof -
  let ?s1 = "partition_windows e ws initial"
  let ?s2 = "launch_all e 0 (to_open ?s1) ?s1"
  from assms(4) obtain m where m: "match_windows e ws ot iv = Some m"
    and s: "s = (if raised m \<noteq> None then m else apply_all e 0 (to_restore m) m)"
    by (rule restore_windows_cases)
  have rm: "raised m = None"
    using s assms(5) by (auto split: if_splits)
  then have s': "s = apply_all e 0 (to_restore m) m"
    using s by simp
  have run: "wait_for_windows e ot iv ?s2 = Some m"
    using m by (simp add: match_windows_def Let_def)
  have u: "to_restore ?s1 = []" "length (to_open ?s1) = length ws" "skipped ?s1 = 0"
    "set (map fst (to_open ?s1)) = {p. Some p \<in> path ` set ws}"
    using partition_windows_unmatched [OF assms(1,2), of initial] by (simp_all add: initial_def)
  have c: "restored ?s1 = 0"
    using partition_windows_count [of e ws initial] by (simp add: initial_def)
  have s2: "?s2 = ?s1\<lparr>trace := trace ?s1 @ launch_events e 0 (to_open ?s1)\<rparr>"
    using launch_failures_zero [OF assms(3)] by (simp add: launch_all_eq)
  have m': "to_restore m = [] \<and> restored m = 0 \<and> skipped m = length ws"
  proof (cases "to_open ?s1 = []")
    case True
    then have "m = ?s2"
      using run unfolding s2 by (simp add: wait_for_windows_def)
    then show ?thesis
      using u c True unfolding s2 by simp
  next
    case False
    let ?ev = "TimeTime (time_time e (clock_reads ?s2))"
    let ?s3 = "?s2\<lparr>clock_reads := clock_reads ?s2 + 1, trace := trace ?s2 @ [?ev],
        remaining := to_open ?s2\<rparr>"
    from run False obtain s4 where
      loop: "poll_loop e (time_time e (clock_reads ?s2) + ot) iv ?s3 = Some s4"
      and fin: "m = (if raised s4 \<noteq> None then s4 else s4\<lparr>skipped := skipped s4 + length (remaining s4)\<rparr>)"
      unfolding s2
      by (auto simp add: wait_for_windows_def Let_def split: option.splits if_splits)
    from rm fin have fin': "m = s4\<lparr>skipped := skipped s4 + length (remaining s4)\<rparr>"
      by (auto split: if_splits)
    have "\<forall>n. \<forall>sw\<in>set (shell_windows e n). \<forall>t\<in>set (remaining ?s3). sw_folder sw \<noteq> Some (fst t)"
    proof (intro allI ballI)
      fix n sw t assume sw: "sw \<in> set (shell_windows e n)" and "t \<in> set (remaining ?s3)"
      then have "fst t \<in> set (map fst (to_open ?s1))"
        unfolding s2 by simp
      then obtain w where "w \<in> set ws" "path w = Some (fst t)"
        unfolding u(4) by auto
      then show "sw_folder sw \<noteq> Some (fst t)"
        using assms(2) sw by metis
    qed
    from poll_loop_idle [OF loop this] have "idle ?s3 s4" .
    then show ?thesis
      unfolding fin' using u c unfolding s2 by (simp add: idle_def)
  qed
  then show ?thesis
    unfolding s' by simp
qed

lemma zero_timeout_returns:
  assumes "files fp = Some (Json d)"
    and "\<forall>w\<in>set (get_windows d). \<exists>p. path w = Some p \<and> p \<noteq> []"
    and "\<forall>n. \<forall>sw\<in>set (shell_windows e n). \<forall>w\<in>set (get_windows d). sw_folder sw \<noteq> path w"
    and "\<forall>i. popen_ok e i"
    and "time_time e 0 \<le> time_time e 1"
  shows "restore_session e files fp 0 iv = Some (Inr (0, length (get_windows d)))"
proof -
  let ?ws = "get_windows d"
  let ?s1 = "partition_windows e ?ws initial"
  let ?s2 = "launch_all e 0 (to_open ?s1) ?s1"
  have l: "load_session files fp = Inr d"
    using assms(1) by (simp add: load_session_def)
  have u: "to_restore ?s1 = []" "length (to_open ?s1) = length ?ws" "skipped ?s1 = 0"
    using partition_windows_unmatched [OF assms(2,3), of initial] by (simp_all add: initial_def)
  have c: "restored ?s1 = 0" "raised ?s1 = None" "clock_reads ?s1 = 0"
    using partition_windows_count [of e ?ws initial] by (simp_all add: initial_def)
  have s2: "?s2 = ?s1\<lparr>trace := trace ?s1 @ launch_events e 0 (to_open ?s1)\<rparr>"
    using launch_failures_zero [OF assms(4)] by (simp add: launch_all_eq)
  show ?thesis
  proof (cases "to_open ?s1 = []")
    case True
    then have "?ws = []" using u(2) by simp
    have "wait_for_windows e 0 iv ?s2 = Some ?s2"
      using True unfolding s2 by (simp add: wait_for_windows_def)
    then have "restore_windows e ?ws 0 iv = Some ?s2"
      using u(1) c(2)
      by (simp add: restore_windows_def match_windows_def Let_def s2)
    then show ?thesis
      using l u c \<open>?ws = []\<close> unfolding s2 by (simp add: restore_session_def)
  next
    case False
    let ?s3 = "?s2\<lparr>clock_reads := 1, trace := trace ?s2 @ [TimeTime (time_time e 0)],
        remaining := to_open ?s1\<rparr>"
    let ?s4 = "?s3\<lparr>clock_reads := 2, trace := trace ?s3 @ [TimeTime (time_time e 1)]\<rparr>"
    have "poll_loop e (time_time e 0 + 0) iv ?s3 = Some ?s4"
      using False assms(5) unfolding s2
      by (subst poll_loop.simps) (simp add: Let_def)
    then have w: "wait_for_windows e 0 iv ?s2 = Some (?s4\<lparr>skipped := length ?ws\<rparr>)"
      using False u c unfolding s2
      by (simp add: wait_for_windows_def Let_def)
    have "restore_windows e ?ws 0 iv = Some (?s4\<lparr>skipped := length ?ws\<rparr>)"
      using w u(1) c(2)
      by (simp add: restore_windows_def match_windows_def Let_def s2)
    then show ?thesis
      using l c unfolding s2 by (simp add: restore_session_def)
  qed
qed

text \<open>
  Claim C4. Let every entry of the snapshot have a non-empty path, let no live window show
  any of these paths at any enumeration, and let every launch request succeed. Then
  \<^verbatim>\<open>restore_session\<close> with \<open>open_timeout = 0\<close> returns no pair other than
  \<open>(0, N)\<close>, \<open>N\<close> the number of entries; and it does return \<open>(0, N)\<close> when the clock reading
  at the first test of the loop is not below the reading the deadline was taken from.
  (The paths need not be distinct.)
\<close>

theorem restore_session_zero_timeout:
  assumes "files fp = Some (Json d)"
    and "\<forall>w\<in>set (get_windows d). \<exists>p. path w = Some p \<and> p \<noteq> []"
    and "\<forall>n. \<forall>sw\<in>set (shell_windows e n). \<forall>w\<in>set (get_windows d). sw_folder sw \<noteq> path w"
    and "\<forall>i. popen_ok e i"
  shows "(time_time e 0 \<le> time_time e 1 \<longrightarrow>
            restore_session e files fp 0 iv = Some (Inr (0, length (get_windows d))))
       \<and> (restore_session e files fp 0 iv = Some (Inr (r, k)) \<longrightarrow>
            r = 0 \<and> k = length (get_windows d))"
proof (rule conjI)
  show "time_time e 0 \<le> time_time e 1 \<longrightarrow>
      restore_session e files fp 0 iv = Some (Inr (0, length (get_windows d)))"
    using zero_timeout_returns [where files = files and fp = fp and d = d
        and e = e and iv = iv, OF assms] by blast
next
  show "restore_session e files fp 0 iv = Some (Inr (r, k)) \<longrightarrow>
      r = 0 \<and> k = length (get_windows d)"
  proof
    assume a: "restore_session e files fp 0 iv = Some (Inr (r, k))"
    have "load_session files fp = Inr d"
      using assms(1) by (simp add: load_session_def)
    with a obtain s where s: "restore_windows e (get_windows d) 0 iv = Some s"
      "raised s = None" "r = restored s" "k = skipped s"
      by (auto simp add: restore_session_def split: option.splits)
    from restore_windows_unmatched [OF assms(2,3,4) s(1,2)] s(3,4)
    show "r = 0 \<and> k = length (get_windows d)" by simp
  qed
qed

subsection \<open>Sample runs\<close>

lemmas sample_defs = sample_env_def twin_env_def failing_env_def quiet_env_def sample_A_def
  sample_B_def sample_empty_def sample_live_A_def sample_live_A2_def sample_live_B_def

lemmas restore_defs = restore_windows_def match_windows_def wait_for_windows_def initial_def
  find_step_def apply_geometry_def show_window_cmd_def SW_SHOWNORMAL_def SW_SHOWMINIMIZED_def
  SW_SHOWMAXIMIZED_def SW_MAXIMIZE_def SW_MINIMIZE_def SW_RESTORE_def Let_def

lemma sample_run:
  "restore_windows sample_env [sample_A, sample_empty, sample_B] 2 (1 / 10) = Some sample_final"
  by (simp add: restore_defs sample_defs poll_loop.simps sample_final_def)

lemma twin_run:
  "restore_windows twin_env [sample_A, sample_A] 2 (1 / 10) = Some twin_final"
  by (simp add: restore_defs sample_defs twin_final_def)

lemma failing_run:
  "restore_windows failing_env [sample_B] 2 (1 / 10) = Some failing_final"
  by (simp add: restore_defs sample_defs poll_loop.simps failing_final_def)

lemma sample_session_run:
  "restore_session sample_env sample_files ''S/mixed.json'' 2 (1 / 10) = Some (Inr (2, 1))"
  by (simp add: restore_session_def load_session_def sample_files_def get_windows_def
      sample_mixed_def sample_run sample_final_def)

subsection \<open>The properties on the sample runs\<close>

theorem restore_handles_distinct_witness:
  "restore_windows twin_env [sample_A, sample_A] 2 (1 / 10) = Some twin_final
   \<and> map fst (to_restore twin_final) = [11, 14]
   \<and> distinct (map fst (to_restore twin_final))
   \<and> set (map fst (to_restore twin_final)) = used_hwnds twin_final
   \<and> found_handles (trace twin_final) = map fst (to_restore twin_final)
   \<and> find_window_by_path [sample_live_A, sample_live_A2] ''C:/A'' {11} = Some 14
   \<and> 14 \<notin> {11 :: int}"
proof -
  have f: "find_window_by_path [sample_live_A, sample_live_A2] ''C:/A'' {11} = Some 14"
    by (simp add: sample_live_A_def sample_live_A2_def)
  have m: "map fst (to_restore twin_final) = [11, 14]"
    by (simp add: twin_final_def)
  note t = restore_handles_distinct [OF twin_run,
      of "[sample_live_A, sample_live_A2]" "''C:/A''" "{11}" 14]
  from t f m twin_run show ?thesis by blast
qed

theorem restore_event_order_witness:
  "restore_windows sample_env [sample_A, sample_empty, sample_B] 2 (1 / 10) = Some sample_final
   \<and> launch_events sample_env 0 (to_open sample_final) = [Popen ''C:/B'' True]
   \<and> (\<exists>D W G. trace sample_final = D @ launch_events sample_env 0 (to_open sample_final) @ W @ G
         \<and> list_all is_find D \<and> list_all is_wait W \<and> list_all is_geometry G
         \<and> set (geometry_handles G) \<subseteq> set (found_handles (D @ W)))"
proof -
  have l: "launch_events sample_env 0 (to_open sample_final) = [Popen ''C:/B'' True]"
    by (simp add: sample_final_def sample_env_def)
  from restore_event_order [OF sample_run] l sample_run show ?thesis by blast
qed

theorem restore_session_count_witness:
  "restore_session sample_env sample_files ''S/mixed.json'' 2 (1 / 10) = Some (Inr (2, 1))
   \<and> (2 :: nat) + 1 = length (get_windows sample_mixed)"
proof -
  have h1: "\<forall>i. popen_ok sample_env i"
    by (simp add: sample_env_def)
  have h2: "sample_files ''S/mixed.json'' = Some (Json sample_mixed)"
    by (simp add: sample_files_def)
  from restore_session_count [where e = sample_env and files = sample_files
      and fp = "''S/mixed.json''" and d = sample_mixed, OF h1 h2 sample_session_run]
    sample_session_run
  show ?thesis by simp
qed

text \<open>
  Claim C1 as stated fails on a snapshot whose only entry has the empty path: the entry is
  counted as skipped, so the counts add up to one, while no entry has a non-empty path.
\<close>

theorem restore_session_empty_path_counterexample:
  "restore_session sample_env sample_files ''S/blank.json'' 2 (1 / 10) = Some (Inr (0, 1))
   \<and> nonempty_paths (get_windows sample_blank) = 0"
  by (simp add: restore_session_def load_session_def sample_files_def get_windows_def
      sample_blank_def restore_defs sample_defs nonempty_paths_def)

text \<open>
  Claim C2 fails in the code. With a single entry, no live window and a failing launch, the
  entry stays in \<^verbatim>\<open>to_open\<close>: it is searched for again in the polling round after its launch
  failed, and it is counted a second time when the deadline has passed, so the pass reports
  two skipped entries for a snapshot of one.
\<close>

theorem failed_launch_counted_twice:
  "restore_windows failing_env (get_windows sample_only_B) 2 (1 / 10) = Some failing_final
   \<and> trace failing_final =
       [FindWindow ''C:/B'' None, Popen ''C:/B'' False, TimeTime 0, TimeTime 1,
        FindWindow ''C:/B'' None, Sleep (1 / 10), TimeTime 2]
   \<and> restore_session failing_env sample_files ''S/only B.json'' 2 (1 / 10) = Some (Inr (0, 2))
   \<and> restore_session failing_env sample_files ''S/only B.json'' 0 (1 / 10) = Some (Inr (0, 2))
   \<and> length (get_windows sample_only_B) = 1"
proof -
  have g: "get_windows sample_only_B = [sample_B]"
    by (simp add: get_windows_def sample_only_B_def)
  have l: "load_session sample_files ''S/only B.json'' = Inr sample_only_B"
    by (simp add: load_session_def sample_files_def)
  have z: "restore_windows failing_env [sample_B] 0 (1 / 10) =
      Some (failing_final\<lparr>enumerations := 1, clock_reads := 2,
        trace := [FindWindow ''C:/B'' None, Popen ''C:/B'' False, TimeTime 0, TimeTime 1]\<rparr>)"
    by (simp add: restore_defs sample_defs poll_loop.simps failing_final_def)
  show ?thesis
    using failing_run z
    by (simp add: restore_session_def l g) (simp add: failing_final_def)
qed

theorem restore_session_zero_timeout_witness:
  "restore_session quiet_env sample_files ''S/work.json'' 0 (1 / 10) = Some (Inr (0, 2))"
proof -
  have g: "get_windows sample_work = [sample_A, sample_B]"
    by (simp add: get_windows_def sample_work_def)
  have h1: "sample_files ''S/work.json'' = Some (Json sample_work)"
    by (simp add: sample_files_def)
  have h2: "\<forall>w\<in>set (get_windows sample_work). \<exists>p. path w = Some p \<and> p \<noteq> []"
    unfolding g by (simp add: sample_A_def sample_B_def)
  have h3: "\<forall>n. \<forall>sw\<in>set (shell_windows quiet_env n). \<forall>w\<in>set (get_windows sample_work).
      sw_folder sw \<noteq> path w"
    unfolding g by (simp add: quiet_env_def sample_A_def sample_B_def)
  have h4: "\<forall>i. popen_ok quiet_env i"
    by (simp add: quiet_env_def)
  have h5: "time_time quiet_env 0 \<le> time_time quiet_env 1"
    by (simp add: quiet_env_def)
  note t = restore_session_zero_timeout [where files = sample_files and fp = "''S/work.json''"
      and d = sample_work and e = quiet_env and iv = "1 / 10" and r = 0 and k = 2,
      OF h1 h2 h3 h4]
  from t [THEN conjunct1, THEN mp, OF h5] show ?thesis
    unfolding g by simp
qed

end
